theory Spec2Isabelle
  imports Complex_Main
begin

section \<open>The Convolution2D layer of keras-js\<close>

text \<open>
  A shallow embedding of \<^verbatim>\<open>src/layers/convolutional/Convolution2D.js\<close>.
  The layer works on \<^verbatim>\<open>ndarray\<close> views (shape, stride, offset) over typed-array
  buffers that it allocates and writes in place, and it rebinds the \<^verbatim>\<open>tensor\<close> field of
  the \<^verbatim>\<open>Tensor\<close> wrapper it is given. Buffers and wrappers therefore live in an
  explicit store; every function of the layer takes the store and returns it updated.
\<close>

subsection \<open>Elements of a Float32Array\<close>

text \<open>
  An element is a number or NaN. Reading a typed array outside its bounds gives
  \<^verbatim>\<open>undefined\<close>, which becomes NaN when it is stored or used in arithmetic; NaN is
  absorbing for addition and multiplication. The numbers themselves, their zero, addition
  and multiplication are those of the parameter type, of which no law is assumed: the
  operations may round, as those of 32-bit floats do.
\<close>

datatype 'a f32 = F 'a | NaN

instantiation f32 :: (zero) zero
begin
definition zero_f32 :: "'a f32" where
  "zero_f32 = F 0"
instance ..
end

instantiation f32 :: (plus) plus
begin
definition plus_f32 :: "'a f32 \<Rightarrow> 'a f32 \<Rightarrow> 'a f32" where
  "plus_f32 x y = (case x of NaN \<Rightarrow> NaN | F a \<Rightarrow> (case y of NaN \<Rightarrow> NaN | F b \<Rightarrow> F (a + b)))"
instance ..
end

instantiation f32 :: (times) times
begin
definition times_f32 :: "'a f32 \<Rightarrow> 'a f32 \<Rightarrow> 'a f32" where
  "times_f32 x y = (case x of NaN \<Rightarrow> NaN | F a \<Rightarrow> (case y of NaN \<Rightarrow> NaN | F b \<Rightarrow> F (a * b)))"
instance ..
end

subsection \<open>Errors\<close>

text \<open>
  \<^verbatim>\<open>ConfigError\<close> is the \<^verbatim>\<open>Error\<close> thrown by the constructor, with its message.
  \<^verbatim>\<open>RangeError\<close> is what \<^verbatim>\<open>new Float32Array(n)\<close> throws for a negative length,
  \<^verbatim>\<open>TypeError\<close> what a property access on \<^verbatim>\<open>undefined\<close> or a call of a non-function
  throws. \<^verbatim>\<open>ShapeError\<close> is the \<^verbatim>\<open>Error\<close> that \<^verbatim>\<open>ops.assign\<close> and \<^verbatim>\<open>gemm\<close> throw when
  the shapes of their arrays do not agree. \<^verbatim>\<open>Diverges\<close> stands for a loop that never ends
  (a stride below one), and \<^verbatim>\<open>NotModelled\<close> for an input whose rank the layer is not
  written for (the JavaScript then computes with \<^verbatim>\<open>undefined\<close> dimensions).
\<close>

datatype error = ConfigError string | RangeError | TypeError | ShapeError | Diverges | NotModelled

text \<open>Sequencing: the first error ends the computation, as a thrown exception does.\<close>

definition ebind :: "error + 'x \<Rightarrow> ('x \<Rightarrow> error + 'y) \<Rightarrow> error + 'y" where
  "ebind m f = (case m of Inl e \<Rightarrow> Inl e | Inr v \<Rightarrow> f v)"

subsection \<open>ndarray views and the store\<close>

type_synonym addr = nat

record ndarray =
  data :: addr
  shape :: "int list"
  stride :: "int list"
  offset :: int

record Tensor =
  tensor :: ndarray
  useWeblas :: bool

record 'a heap =
  bufs :: "'a f32 list list"
  objs :: "Tensor list"

definition buf :: "'a heap \<Rightarrow> addr \<Rightarrow> 'a f32 list" where
  "buf h a = (if a < length (bufs h) then bufs h ! a else [])"

definition deref :: "'a heap \<Rightarrow> nat \<Rightarrow> Tensor option" where
  "deref h r = (if r < length (objs h) then Some (objs h ! r) else None)"

text \<open>Typed-array element access: a read out of range gives NaN, a write out of range is dropped.\<close>

definition bread :: "'a f32 list \<Rightarrow> int \<Rightarrow> 'a f32" where
  "bread xs p = (if 0 \<le> p \<and> p < int (length xs) then xs ! nat p else NaN)"

definition bwrite :: "'a f32 list \<Rightarrow> int \<Rightarrow> 'a f32 \<Rightarrow> 'a f32 list" where
  "bwrite xs p v = (if 0 \<le> p \<and> p < int (length xs) then xs[nat p := v] else xs)"

text \<open>The row-major strides ndarray gives a fresh array, and its offset rule.\<close>

fun strides :: "int list \<Rightarrow> int list" where
  "strides [] = []"
| "strides (n # ns) = prod_list ns # strides ns"

fun neg_offset :: "int list \<Rightarrow> int list \<Rightarrow> int" where
  "neg_offset (n # ns) (s # ss) = (if s < 0 then - ((n - 1) * s) else 0) + neg_offset ns ss"
| "neg_offset _ _ = 0"

definition mk_ndarray :: "addr \<Rightarrow> int list \<Rightarrow> ndarray" where
  "mk_ndarray d shp =
     \<lparr>data = d, shape = shp, stride = strides shp, offset = neg_offset shp (strides shp)\<rparr>"

fun dot :: "int list \<Rightarrow> int list \<Rightarrow> int" where
  "dot (s # ss) (i # is) = s * i + dot ss is"
| "dot _ _ = 0"

definition index :: "ndarray \<Rightarrow> int list \<Rightarrow> int" where
  "index a is = offset a + dot (stride a) is"

text \<open>
  Element access through a view. An index tuple of another length than the view's rank
  leaves a stride \<^verbatim>\<open>undefined\<close>: the position is NaN, the read gives NaN and the write
  is dropped.
\<close>

definition get :: "'a heap \<Rightarrow> ndarray \<Rightarrow> int list \<Rightarrow> 'a f32" where
  "get h a is =
     (if length is = length (stride a) then bread (buf h (data a)) (index a is) else NaN)"

definition set_el :: "'a heap \<Rightarrow> ndarray \<Rightarrow> int list \<Rightarrow> 'a f32 \<Rightarrow> 'a heap" where
  "set_el h a is v =
     (if length is = length (stride a)
      then h\<lparr>bufs := (bufs h)[data a := bwrite (buf h (data a)) (index a is) v]\<rparr>
      else h)"

text \<open>\<^verbatim>\<open>hi\<close>, \<^verbatim>\<open>lo\<close>, \<^verbatim>\<open>pick\<close> and \<^verbatim>\<open>transpose\<close> make views of the same buffer.\<close>

fun hi_shape :: "int list \<Rightarrow> int list \<Rightarrow> int list" where
  "hi_shape (n # ns) (b # bs) = (if 0 \<le> b then b else n) # hi_shape ns bs"
| "hi_shape ns _ = ns"

definition hi :: "ndarray \<Rightarrow> int list \<Rightarrow> ndarray" where
  "hi a bs = a\<lparr>shape := hi_shape (shape a) bs\<rparr>"

fun lo_shape :: "int list \<Rightarrow> int list \<Rightarrow> int list" where
  "lo_shape (n # ns) (b # bs) = (if 0 \<le> b then n - b else n) # lo_shape ns bs"
| "lo_shape ns _ = ns"

fun lo_offset :: "int list \<Rightarrow> int list \<Rightarrow> int" where
  "lo_offset (s # ss) (b # bs) = (if 0 \<le> b then s * b else 0) + lo_offset ss bs"
| "lo_offset _ _ = 0"

definition lo :: "ndarray \<Rightarrow> int list \<Rightarrow> ndarray" where
  "lo a bs = a\<lparr>shape := lo_shape (shape a) bs, offset := offset a + lo_offset (stride a) bs\<rparr>"

fun pick_keep :: "'b list \<Rightarrow> int option list \<Rightarrow> 'b list" where
  "pick_keep (n # ns) (None # ps) = n # pick_keep ns ps"
| "pick_keep (n # ns) (Some i # ps) = (if 0 \<le> i then pick_keep ns ps else n # pick_keep ns ps)"
| "pick_keep ns _ = ns"

fun pick_offset :: "int list \<Rightarrow> int option list \<Rightarrow> int" where
  "pick_offset (s # ss) (None # ps) = pick_offset ss ps"
| "pick_offset (s # ss) (Some i # ps) = (if 0 \<le> i then s * i else 0) + pick_offset ss ps"
| "pick_offset _ _ = 0"

definition pick :: "ndarray \<Rightarrow> int option list \<Rightarrow> ndarray" where
  "pick a ps = a\<lparr>shape := pick_keep (shape a) ps, stride := pick_keep (stride a) ps,
     offset := offset a + pick_offset (stride a) ps\<rparr>"

definition transpose_nd :: "ndarray \<Rightarrow> nat list \<Rightarrow> ndarray" where
  "transpose_nd a axes =
     a\<lparr>shape := map (\<lambda>k. shape a ! k) axes, stride := map (\<lambda>k. stride a ! k) axes\<rparr>"

subsection \<open>ndarray-ops and ndarray-gemm\<close>

text \<open>The index tuples of a shape, last axis fastest; none when a dimension is not positive.\<close>

fun indices :: "int list \<Rightarrow> int list list" where
  "indices [] = [[]]"
| "indices (n # ns) = concat (map (\<lambda>i. map ((#) i) (indices ns)) (map int [0..<nat n]))"

text \<open>
  Modelled from the spec: ndarray-ops and ndarray-gemm are libraries, not among the sources.
  \<^verbatim>\<open>ops.assign(dst, src)\<close> throws (\<^verbatim>\<open>Arrays do not all have the same shape!\<close>) unless
  \<^verbatim>\<open>dst\<close> and \<^verbatim>\<open>src\<close> have the same shape, and then copies element by element over the
  index tuples of that shape; \<^verbatim>\<open>ops.assigns(dst, v)\<close> has one array only and runs over the
  shape of \<^verbatim>\<open>dst\<close>.
\<close>

definition assign_loop :: "'a heap \<Rightarrow> ndarray \<Rightarrow> ndarray \<Rightarrow> 'a heap" where
  "assign_loop h dst src = foldl (\<lambda>h' is. set_el h' dst is (get h' src is)) h (indices (shape dst))"

definition assign :: "'a heap \<Rightarrow> ndarray \<Rightarrow> ndarray \<Rightarrow> error + 'a heap" where
  "assign h dst src = (if shape dst = shape src then Inr (assign_loop h dst src) else Inl ShapeError)"

definition assigns :: "'a heap \<Rightarrow> ndarray \<Rightarrow> 'a f32 \<Rightarrow> 'a heap" where
  "assigns h dst v = foldl (\<lambda>h' is. set_el h' dst is v) h (indices (shape dst))"

text \<open>
  \<^verbatim>\<open>gemm(c, a, b, 1, 1)\<close> throws (\<^verbatim>\<open>Mismatched array shapes for matrix product\<close>)
  unless \<^verbatim>\<open>c\<close> is m by n, \<^verbatim>\<open>a\<close> is m by k and \<^verbatim>\<open>b\<close> is k by n; then every element of
  \<^verbatim>\<open>c\<close> receives its old value plus the product of a row of \<^verbatim>\<open>a\<close> and a column of
  \<^verbatim>\<open>b\<close>, accumulated from the first index on. The factors 1 are left out.
\<close>

definition gemm_el :: "'a::{plus,times} heap \<Rightarrow> ndarray \<Rightarrow> ndarray \<Rightarrow> ndarray \<Rightarrow> int \<Rightarrow> int \<Rightarrow> int \<Rightarrow> 'a f32" where
  "gemm_el h c a b kk i j =
     foldl (\<lambda>acc k. acc + get h a [i, k] * get h b [k, j]) (get h c [i, j]) (map int [0..<nat kk])"

definition gemm_loop :: "'a::{plus,times} heap \<Rightarrow> ndarray \<Rightarrow> ndarray \<Rightarrow> ndarray \<Rightarrow> 'a heap" where
  "gemm_loop h c a b =
     (case (shape c, shape a) of
        ([m, n], [_, kk]) \<Rightarrow>
          foldl (\<lambda>h' ij. case ij of [i, j] \<Rightarrow> set_el h' c [i, j] (gemm_el h' c a b kk i j) | _ \<Rightarrow> h')
            h (indices [m, n])
      | _ \<Rightarrow> h)"

definition gemm :: "'a::{plus,times} heap \<Rightarrow> ndarray \<Rightarrow> ndarray \<Rightarrow> ndarray \<Rightarrow> error + 'a heap" where
  "gemm h c a b =
     (case (shape c, shape a, shape b) of
        ([m, n], [m', kk], [kk', n']) \<Rightarrow>
          if m = m' \<and> n = n' \<and> kk = kk' then Inr (gemm_loop h c a b) else Inl ShapeError
      | _ \<Rightarrow> Inl NotModelled)"

subsection \<open>The Tensor class\<close>

text \<open>
  Modelled from the spec: the Tensor class (\<^verbatim>\<open>src/Tensor.js\<close> is not among the sources).
  A tensor is a shape and a flat row-major buffer of 32-bit floats; \<^verbatim>\<open>new Tensor([], shape)\<close>
  allocates a zero-filled typed array of the product of the shape and views it with that
  shape. A typed array of negative length cannot be allocated (RangeError).
  \<^verbatim>\<open>replaceTensorData\<close> makes the view read another buffer.
\<close>

definition newTensor :: "'a::zero heap \<Rightarrow> int list \<Rightarrow> error + ('a heap \<times> ndarray)" where
  "newTensor h shp =
     (let size = foldl (*) 1 shp in
      if size < 0 then Inl RangeError
      else Inr (h\<lparr>bufs := bufs h @ [replicate (nat size) 0]\<rparr>, mk_ndarray (length (bufs h)) shp))"

definition replaceTensorData :: "ndarray \<Rightarrow> addr \<Rightarrow> ndarray" where
  "replaceTensorData a d = a\<lparr>data := d\<rparr>"

definition set_tensor :: "'a heap \<Rightarrow> nat \<Rightarrow> ndarray \<Rightarrow> 'a heap" where
  "set_tensor h x a = h\<lparr>objs := (objs h)[x := (objs h ! x)\<lparr>tensor := a\<rparr>]\<rparr>"

subsection \<open>Loops\<close>

text \<open>
  \<^verbatim>\<open>for (let i = i0; i <= limit; i += step) body\<close>. The body may fail; with a step
  below one the loop never ends once it has been entered. A loop
  \<^verbatim>\<open>for (let n = 0; n < N; n++) body\<close> over integers is \<open>for_loop 0 (N - 1) 1 body\<close>.
\<close>

function for_loop :: "int \<Rightarrow> int \<Rightarrow> int \<Rightarrow> (int \<Rightarrow> 's \<Rightarrow> error + 's) \<Rightarrow> 's \<Rightarrow> error + 's" where
  "for_loop i limit step body s =
     (if i \<le> limit then
        (case body i s of
           Inl e \<Rightarrow> Inl e
         | Inr s' \<Rightarrow> if step \<le> 0 then Inl Diverges else for_loop (i + step) limit step body s')
      else Inr s)"
  by pat_completeness auto
termination
  by (relation "measure (\<lambda>(i, limit, step, body, s). nat (limit + 1 - i))") auto

declare for_loop.simps [simp del]

subsection \<open>The layer and its constructor\<close>

text \<open>
  The attributes object: a property that is absent (\<^verbatim>\<open>undefined\<close>) is \<open>None\<close> and takes
  the default of the destructuring pattern.
\<close>

record attrs =
  attr_name :: "string option"
  attr_nbFilter :: "int option"
  attr_nbRow :: "int option"
  attr_nbCol :: "int option"
  attr_activation :: "string option"
  attr_borderMode :: "string option"
  attr_subsample :: "(int \<times> int) option"
  attr_dimOrdering :: "string option"
  attr_bias :: "bool option"

text \<open>
  The fields of the layer object. \<^verbatim>\<open>weights\<close> maps a parameter name to the Tensor
  wrapper it was given; \<^verbatim>\<open>wRowsMat\<close> is \<^verbatim>\<open>_wRowsMat\<close>; \<^verbatim>\<open>outputShape\<close> and
  \<^verbatim>\<open>inputPadding\<close> are \<^verbatim>\<open>undefined\<close> until \<^verbatim>\<open>_calcOutputShape\<close> has run.
  An activation transforms the values of a tensor in place.
\<close>

record 'a layer =
  name :: "string option"
  layerClass :: string
  kernelShape :: "int \<times> int \<times> int"
  activation :: "('a f32 list \<Rightarrow> 'a f32 list) option"
  borderMode :: string
  subsample :: "int \<times> int"
  dimOrdering :: string
  bias :: bool
  params :: "string list"
  weights :: "string \<Rightarrow> nat option"
  wRowsMat :: "ndarray option"
  outputShape :: "int list option"
  inputPadding :: "(int \<times> int \<times> int \<times> int) option"

definition default :: "'b \<Rightarrow> 'b option \<Rightarrow> 'b" where
  "default d v = (case v of None \<Rightarrow> d | Some x \<Rightarrow> x)"

definition name_text :: "string option \<Rightarrow> string" where
  "name_text n = (case n of None \<Rightarrow> ''undefined'' | Some s \<Rightarrow> s)"

text \<open>
  Modelled from the spec: the Layer base class and the table of activations
  (\<^verbatim>\<open>src/Layer.js\<close> and \<^verbatim>\<open>src/activations\<close> are not among the sources). The base
  constructor records the name and starts with no parameters and no weights; an
  activation is looked up by name in the table \<open>activations\<close>, and a name the table does
  not have gives \<^verbatim>\<open>undefined\<close>.
\<close>

definition constructor ::
  "(string \<Rightarrow> ('a f32 list \<Rightarrow> 'a f32 list) option) \<Rightarrow> attrs \<Rightarrow> error + 'a layer" where
  "constructor activations attrs =
     (let nbFilter = default 1 (attr_nbFilter attrs);
          nbRow = default 3 (attr_nbRow attrs);
          nbCol = default 3 (attr_nbCol attrs);
          activation = default ''linear'' (attr_activation attrs);
          borderMode = default ''valid'' (attr_borderMode attrs);
          subsample = default (1, 1) (attr_subsample attrs);
          dimOrdering = default ''tf'' (attr_dimOrdering attrs);
          bias = default True (attr_bias attrs)
      in
      if borderMode = ''valid'' \<or> borderMode = ''same'' then
        if dimOrdering = ''tf'' \<or> dimOrdering = ''th'' then
          Inr \<lparr>name = attr_name attrs,
               layerClass = ''Convolution2D'',
               kernelShape = (nbFilter, nbRow, nbCol),
               activation = activations activation,
               borderMode = borderMode,
               subsample = subsample,
               dimOrdering = dimOrdering,
               bias = bias,
               params = (if bias then [''W'', ''b''] else [''W'']),
               weights = (\<lambda>p. None),
               wRowsMat = None,
               outputShape = None,
               inputPadding = None\<rparr>
        else Inl (ConfigError (name_text (attr_name attrs) @
               '' [Convolution2D layer] Only tf and th dim ordering are allowed.''))
      else Inl (ConfigError (name_text (attr_name attrs) @
             '' [Convolution2D layer] Invalid borderMode.'')))"

subsection \<open>Output shape and padding\<close>

text \<open>
  \<^verbatim>\<open>_calcOutputShape\<close>. The dimensions are integers, and \<^verbatim>\<open>Math.floor(a / b)\<close> is the
  integer quotient rounded down; with a stride of 0 the JavaScript divides by zero and
  goes on with infinite or undefined dimensions, which is outside the model.
\<close>

definition calcOutputShape :: "'a layer \<Rightarrow> ndarray \<Rightarrow> error + 'a layer" where
  "calcOutputShape L x =
     (case shape x of
        inputRows # inputCols # _ \<Rightarrow>
          (case (kernelShape L, subsample L) of
             ((nbFilter, nbRow, nbCol), (s0, s1)) \<Rightarrow>
               if s0 = 0 \<or> s1 = 0 then Inl NotModelled
               else
                 let outputRows = (if borderMode L = ''same''
                        then (inputRows + s0 - 1) div s0
                        else (inputRows - nbRow + s0) div s0);
                     outputCols = (if borderMode L = ''same''
                        then (inputCols + s1 - 1) div s1
                        else (inputCols - nbCol + s1) div s1);
                     outputChannels = nbFilter;
                     paddingRow = (if borderMode L = ''same''
                        then max 0 ((outputRows - 1) * s0 + nbRow - inputRows)
                        else 0);
                     paddingCol = (if borderMode L = ''same''
                        then max 0 ((outputCols - 1) * s1 + nbCol - inputCols)
                        else 0);
                     paddingRowBefore = paddingRow div 2;
                     paddingRowAfter = paddingRow - paddingRowBefore;
                     paddingColBefore = paddingCol div 2;
                     paddingColAfter = paddingCol - paddingColBefore
                 in Inr (L\<lparr>outputShape := Some [outputRows, outputCols, outputChannels],
                          inputPadding := Some (paddingRowBefore, paddingRowAfter,
                                                paddingColBefore, paddingColAfter)\<rparr>))
      | _ \<Rightarrow> Inl NotModelled)"

subsection \<open>Padding\<close>

text \<open>\<^verbatim>\<open>_padInput\<close>: the wrapper \<open>x\<close> is given by reference and returned.\<close>

definition padInput :: "'a::zero layer \<Rightarrow> 'a heap \<Rightarrow> nat \<Rightarrow> error + ('a heap \<times> nat)" where
  "padInput L h x =
     (if borderMode L = ''same'' then
        (case deref h x of
           None \<Rightarrow> Inl TypeError
         | Some xt \<Rightarrow>
            (case (shape (tensor xt), inputPadding L) of
               ([inputRows, inputCols, inputChannels],
                Some (paddingRowBefore, paddingRowAfter, paddingColBefore, paddingColAfter)) \<Rightarrow>
                 (let newRows = inputRows + paddingRowBefore + paddingRowAfter;
                      newCols = inputCols + paddingColBefore + paddingColAfter
                  in case newTensor h [newRows, newCols, inputChannels] of
                       Inl e \<Rightarrow> Inl e
                     | Inr (h1, x') \<Rightarrow>
                        ebind (assign h1
                                 (lo (hi x' [inputRows + paddingRowBefore,
                                             inputCols + paddingColBefore, inputChannels])
                                     [paddingRowBefore, paddingColBefore, 0])
                                 (tensor xt)) (\<lambda>h2.
                        Inr (set_tensor h2 x x', x)))
             | (_, None) \<Rightarrow> Inl TypeError
             | _ \<Rightarrow> Inl NotModelled))
      else Inr (h, x))"

subsection \<open>Image to columns\<close>

text \<open>
  \<^verbatim>\<open>_im2col\<close>: the loop state is the store and the row counter \<open>n\<close>. Each window is
  copied into \<^verbatim>\<open>patch\<close>, whose buffer \<^verbatim>\<open>patchRaveled\<close> is then made to view, and from
  there into row \<open>n\<close> of the patch matrix.
\<close>

definition im2col_body ::
  "ndarray \<Rightarrow> ndarray \<Rightarrow> ndarray \<Rightarrow> ndarray \<Rightarrow> int \<Rightarrow> int \<Rightarrow> int \<Rightarrow> int \<Rightarrow> int \<Rightarrow>
   'a heap \<times> int \<Rightarrow> error + ('a heap \<times> int)" where
  "im2col_body xa imColsMat patch patchRaveled nbRow nbCol inputChannels i j s =
     (case s of (h, n) \<Rightarrow>
        ebind (assign h patch (lo (hi xa [i + nbRow, j + nbCol, inputChannels]) [i, j, 0])) (\<lambda>h1.
        let patchRaveled' = replaceTensorData patchRaveled (data patch)
        in ebind (assign h1 (pick imColsMat [Some n, None]) patchRaveled') (\<lambda>h2.
           Inr (h2, n + 1))))"

definition im2col :: "'a::zero layer \<Rightarrow> 'a heap \<Rightarrow> nat \<Rightarrow> error + ('a heap \<times> ndarray)" where
  "im2col L h x =
     (case deref h x of
        None \<Rightarrow> Inl TypeError
      | Some xt \<Rightarrow>
         (case (shape (tensor xt), kernelShape L, outputShape L) of
            ([inputRows, inputCols, inputChannels], (nbFilter, nbRow, nbCol),
             Some [outputRows, outputCols, outputChannels]) \<Rightarrow>
              (let nbPatches = outputRows * outputCols;
                   patchLen = nbRow * nbCol * inputChannels
               in ebind (newTensor h [nbPatches, patchLen]) (\<lambda>(h1, imColsMat).
                  ebind (newTensor h1 [nbRow, nbCol, inputChannels]) (\<lambda>(h2, patch).
                  ebind (newTensor h2 [patchLen]) (\<lambda>(h3, patchRaveled).
                  ebind (for_loop 0 (inputRows - nbRow) (fst (subsample L))
                           (\<lambda>i. for_loop 0 (inputCols - nbCol) (snd (subsample L))
                              (im2col_body (tensor xt) imColsMat patch patchRaveled
                                 nbRow nbCol inputChannels i))
                           (h3, 0)) (\<lambda>(h4, n).
                  Inr (h4, imColsMat))))))
          | (_, _, None) \<Rightarrow> Inl TypeError
          | _ \<Rightarrow> Inl NotModelled))"

subsection \<open>Weights\<close>

text \<open>\<^verbatim>\<open>_w2row\<close>: filter \<open>n\<close> is flattened into column \<open>n\<close> of the weight matrix.\<close>

definition w2row_body :: "ndarray \<Rightarrow> ndarray \<Rightarrow> ndarray \<Rightarrow> ndarray \<Rightarrow> int \<Rightarrow> 'a heap \<Rightarrow> error + 'a heap" where
  "w2row_body W wRows patch patchRaveled n h =
     ebind (assign h patch (pick W [None, None, None, Some n])) (\<lambda>h1.
     let patchRaveled' = replaceTensorData patchRaveled (data patch)
     in assign h1 (pick wRows [None, Some n]) patchRaveled')"

definition w2row :: "'a::zero layer \<Rightarrow> 'a heap \<Rightarrow> error + ('a heap \<times> ndarray)" where
  "w2row L h =
     (case weights L ''W'' of
        None \<Rightarrow> Inl TypeError
      | Some w \<Rightarrow>
         (case deref h w of
            None \<Rightarrow> Inl TypeError
          | Some wt \<Rightarrow>
             (case (shape (tensor wt), kernelShape L) of
                ([_, _, inputChannels, _], (nbFilter, nbRow, nbCol)) \<Rightarrow>
                  (let patchLen = nbRow * nbCol * inputChannels
                   in ebind (newTensor h [patchLen, nbFilter]) (\<lambda>(h1, wRows).
                      ebind (newTensor h1 [nbRow, nbCol, inputChannels]) (\<lambda>(h2, patch).
                      ebind (newTensor h2 [patchLen]) (\<lambda>(h3, patchRaveled).
                      ebind (for_loop 0 (nbFilter - 1) 1
                               (w2row_body (tensor wt) wRows patch patchRaveled) h3) (\<lambda>h4.
                      Inr (h4, wRows))))))
              | _ \<Rightarrow> Inl NotModelled)))"

text \<open>
  Modelled from the spec: \<^verbatim>\<open>Layer.setWeights\<close> (the base class is not among the
  sources) stores the supplied tensors, in order, under the names of \<^verbatim>\<open>params\<close>.
\<close>

definition super_setWeights :: "'a layer \<Rightarrow> nat list \<Rightarrow> 'a layer" where
  "super_setWeights L weightsArr =
     L\<lparr>weights := foldl (\<lambda>w (p, i). w(p := (if i < length weightsArr then Some (weightsArr ! i) else None)))
                    (weights L) (zip (params L) [0..<length (params L)])\<rparr>"

definition setWeights :: "'a::zero layer \<Rightarrow> 'a heap \<Rightarrow> nat list \<Rightarrow> error + ('a layer \<times> 'a heap)" where
  "setWeights L h weightsArr =
     ebind (if dimOrdering L = ''th'' then
              (case weightsArr of
                 [] \<Rightarrow> Inl TypeError
               | w # _ \<Rightarrow>
                  (case deref h w of
                     None \<Rightarrow> Inl TypeError
                   | Some wt \<Rightarrow>
                      if length (shape (tensor wt)) = 4
                      then Inr (set_tensor h w (transpose_nd (tensor wt) [2, 3, 1, 0]))
                      else Inl NotModelled))
            else Inr h) (\<lambda>h1.
     let L1 = super_setWeights L weightsArr
     in ebind (w2row L1 h1) (\<lambda>(h2, m). Inr (L1\<lparr>wRowsMat := Some m\<rparr>, h2)))"

subsection \<open>The forward computation\<close>

text \<open>
  The bias loop of \<^verbatim>\<open>call\<close>: column \<open>n\<close> of \<^verbatim>\<open>matMul\<close> is filled with \<^verbatim>\<open>b[n]\<close>.
  \<^verbatim>\<open>this.weights.b\<close> is only touched inside the loop.
\<close>

definition bias_fill :: "'a layer \<Rightarrow> 'a heap \<Rightarrow> ndarray \<Rightarrow> int \<Rightarrow> error + 'a heap" where
  "bias_fill L h matMul nbFilter =
     (if bias L \<and> 0 < nbFilter then
        (case weights L ''b'' of
           None \<Rightarrow> Inl TypeError
         | Some b \<Rightarrow>
            (case deref h b of
               None \<Rightarrow> Inl TypeError
             | Some bt \<Rightarrow>
                Inr (foldl (\<lambda>h' n. assigns h' (pick matMul [None, Some n]) (get h' (tensor bt) [n]))
                       h (map int [0..<nat nbFilter]))))
      else Inr h)"

text \<open>
  The branch on \<^verbatim>\<open>x._useWeblas\<close>. \<^verbatim>\<open>weblas.sgemm\<close> is an external routine, a
  parameter here: it receives M, N, K and the raw buffers of A, B and C (alpha and
  beta are 1) and returns a new buffer, which replaces the data of \<^verbatim>\<open>matMul\<close>.
\<close>

type_synonym 'a sgemm = "int \<Rightarrow> int \<Rightarrow> int \<Rightarrow> 'a f32 list \<Rightarrow> 'a f32 list \<Rightarrow> 'a f32 list \<Rightarrow> 'a f32 list"

definition matmul_step ::
  "'a::{zero,plus,times} sgemm \<Rightarrow> 'a layer \<Rightarrow> 'a heap \<Rightarrow> bool \<Rightarrow> ndarray \<Rightarrow> ndarray \<Rightarrow>
   error + ('a heap \<times> ndarray)" where
  "matmul_step weblas_sgemm L h x_useWeblas matMul imColsMat =
     (case wRowsMat L of
        None \<Rightarrow> Inl TypeError
      | Some wRows \<Rightarrow>
         if x_useWeblas then
           (case (shape imColsMat, shape wRows) of
              ([m, kk], [_, n]) \<Rightarrow>
                ebind (if bias L then
                         (case weights L ''b'' of
                            None \<Rightarrow> Inl TypeError
                          | Some b \<Rightarrow>
                             (case deref h b of
                                None \<Rightarrow> Inl TypeError
                              | Some bt \<Rightarrow> Inr (buf h (data (tensor bt)))))
                       else if n < 0 then Inl RangeError
                       else Inr (replicate (nat n) 0)) (\<lambda>biasData.
                Inr (h\<lparr>bufs := bufs h @
                         [weblas_sgemm m n kk (buf h (data imColsMat)) (buf h (data wRows)) biasData]\<rparr>,
                     matMul\<lparr>data := length (bufs h)\<rparr>))
            | _ \<Rightarrow> Inl NotModelled)
         else ebind (gemm h matMul imColsMat wRows) (\<lambda>h'. Inr (h', matMul)))"

text \<open>The output loop of \<^verbatim>\<open>call\<close>: column \<open>n\<close> of \<^verbatim>\<open>matMul\<close> becomes channel \<open>n\<close>.\<close>

definition output_body :: "ndarray \<Rightarrow> ndarray \<Rightarrow> ndarray \<Rightarrow> ndarray \<Rightarrow> int \<Rightarrow> 'a heap \<Rightarrow> error + 'a heap" where
  "output_body matMul output outputChannelRaveled outputChannel n h =
     ebind (assign h outputChannelRaveled (pick matMul [None, Some n])) (\<lambda>h1.
     let outputChannel' = replaceTensorData outputChannel (data outputChannelRaveled)
     in assign h1 (pick output [None, None, Some n]) outputChannel')"

text \<open>
  \<^verbatim>\<open>call\<close>. The activation is applied in place to the values of the output tensor;
  an activation that is \<^verbatim>\<open>undefined\<close> cannot be called. The timing and logging
  statements have no effect on the result and are left out.
\<close>

definition call ::
  "'a::{zero,plus,times} sgemm \<Rightarrow> 'a layer \<Rightarrow> 'a heap \<Rightarrow> nat \<Rightarrow> error + ('a layer \<times> 'a heap \<times> nat)" where
  "call weblas_sgemm L h x =
     (case deref h x of
        None \<Rightarrow> Inl TypeError
      | Some xt \<Rightarrow>
         ebind (if dimOrdering L = ''th'' then
                  (if length (shape (tensor xt)) = 3
                   then Inr (set_tensor h x (transpose_nd (tensor xt) [1, 2, 0]))
                   else Inl NotModelled)
                else Inr h) (\<lambda>h0.
         ebind (calcOutputShape L (tensor (objs h0 ! x))) (\<lambda>L1.
         ebind (padInput L1 h0 x) (\<lambda>(h1, x1).
         ebind (im2col L1 h1 x) (\<lambda>(h2, imColsMat).
         (case (kernelShape L1, outputShape L1) of
            ((nbFilter, nbRow, nbCol), Some [outputRows, outputCols, outputChannels]) \<Rightarrow>
              ebind (newTensor h2 [outputRows * outputCols, nbFilter]) (\<lambda>(h3, matMul).
              ebind (bias_fill L1 h3 matMul nbFilter) (\<lambda>h4.
              ebind (matmul_step weblas_sgemm L1 h4 (useWeblas xt) matMul imColsMat) (\<lambda>(h5, matMul').
              ebind (newTensor h5 [outputRows, outputCols, outputChannels]) (\<lambda>(h6, output).
              ebind (newTensor h6 [outputRows * outputCols]) (\<lambda>(h7, outputChannelRaveled).
              ebind (newTensor h7 [outputRows, outputCols]) (\<lambda>(h8, outputChannel).
              ebind (for_loop 0 (nbFilter - 1) 1
                       (output_body matMul' output outputChannelRaveled outputChannel) h8) (\<lambda>h9.
              let h10 = set_tensor h9 x output
              in ebind (case activation L1 of
                          None \<Rightarrow> Inl TypeError
                        | Some f \<Rightarrow> Inr (h10\<lparr>bufs := (bufs h10)[data output := f (buf h10 (data output))]\<rparr>))
                   (\<lambda>h11.
                 Inr (L1,
                      (if dimOrdering L = ''th'' then set_tensor h11 x (transpose_nd output [2, 0, 1])
                       else h11),
                      x)))))))))
          | _ \<Rightarrow> Inl TypeError))))))"

subsection \<open>Definitions used in the statements and proofs\<close>

text \<open>A destination view whose index tuples land on distinct positions inside its buffer.\<close>

definition view_ok :: "'a heap \<Rightarrow> ndarray \<Rightarrow> bool" where
  "view_ok h a \<longleftrightarrow>
     data a < length (bufs h) \<and> length (shape a) = length (stride a) \<and>
     inj_on (index a) (set (indices (shape a))) \<and>
     (\<forall>is\<in>set (indices (shape a)). 0 \<le> index a is \<and> index a is < int (length (buf h (data a))))"

text \<open>The two copies of one round of \<^verbatim>\<open>_w2row\<close>, which are made when the shapes agree.\<close>

definition w2row_copy :: "ndarray \<Rightarrow> ndarray \<Rightarrow> ndarray \<Rightarrow> ndarray \<Rightarrow> 'a heap \<Rightarrow> int \<Rightarrow> 'a heap" where
  "w2row_copy W wRows patch patchRaveled h n =
     (let h1 = assign_loop h patch (pick W [None, None, None, Some n]);
          patchRaveled' = replaceTensorData patchRaveled (data patch)
      in assign_loop h1 (pick wRows [None, Some n]) patchRaveled')"

definition im2col_step ::
  "ndarray \<Rightarrow> ndarray \<Rightarrow> ndarray \<Rightarrow> ndarray \<Rightarrow> int \<Rightarrow> int \<Rightarrow> int \<Rightarrow> int \<Rightarrow> int \<Rightarrow>
   'a heap \<times> int \<Rightarrow> 'a heap \<times> int" where
  "im2col_step xa imColsMat patch patchRaveled nbRow nbCol inputChannels i j s =
     (case s of (h, n) \<Rightarrow>
        (assign_loop (assign_loop h patch (lo (hi xa [i + nbRow, j + nbCol, inputChannels]) [i, j, 0]))
           (pick imColsMat [Some n, None]) (replaceTensorData patchRaveled (data patch)), n + 1))"

text \<open>The two copies of one round of the output loop, which are made when the shapes agree.\<close>

definition output_copy :: "ndarray \<Rightarrow> ndarray \<Rightarrow> ndarray \<Rightarrow> ndarray \<Rightarrow> 'a heap \<Rightarrow> int \<Rightarrow> 'a heap" where
  "output_copy matMul output outputChannelRaveled outputChannel h n =
     (let h1 = assign_loop h outputChannelRaveled (pick matMul [None, Some n]);
          outputChannel' = replaceTensorData outputChannel (data outputChannelRaveled)
      in assign_loop h1 (pick output [None, None, Some n]) outputChannel')"

definition padded_input :: "'a::zero heap \<Rightarrow> ndarray \<Rightarrow> int \<Rightarrow> int \<Rightarrow> int list \<Rightarrow> 'a f32" where
  "padded_input h X pt pl is =
     (case (is, shape X) of
        ([i, j, c], [H, W, C]) \<Rightarrow>
          if pt \<le> i \<and> i < pt + H \<and> pl \<le> j \<and> j < pl + W then get h X [i - pt, j - pl, c] else 0
      | _ \<Rightarrow> NaN)"

text \<open>
  Modelled from the spec: the contract of the accelerated routine (section 4.5), on the
  row-major buffers it is given: \<open>result[p, f] = C[f] + \<Sum>k. A[p, k] * B[k, f]\<close>, the
  products added to the bias in the order of \<open>k\<close>.
\<close>

definition sgemm_spec :: "'a::{plus,times} sgemm" where
  "sgemm_spec M N K A B C =
     map (\<lambda>ij. case ij of
            [i, j] \<Rightarrow> foldl (\<lambda>acc k. acc + bread A (i * K + k) * bread B (k * N + j)) (bread C j)
                        (map int [0..<nat K])
          | _ \<Rightarrow> NaN)
         (indices [M, N])"

definition no_activations :: "string \<Rightarrow> (int f32 list \<Rightarrow> int f32 list) option" where
  "no_activations n = None"

definition layer_same_2 :: "int layer" where
  "layer_same_2 =
     \<lparr>name = None, layerClass = ''Convolution2D'', kernelShape = (1, 3, 3), activation = None,
      borderMode = ''same'', subsample = (2, 2), dimOrdering = ''tf'', bias = True,
      params = [''W'', ''b''], weights = (\<lambda>p. None), wRowsMat = None, outputShape = None,
      inputPadding = None\<rparr>"

definition attrs_zero :: attrs where
  "attrs_zero =
     \<lparr>attr_name = None, attr_nbFilter = Some 0, attr_nbRow = Some 0, attr_nbCol = Some (- 1),
      attr_activation = None, attr_borderMode = Some ''valid'', attr_subsample = Some (0, 0),
      attr_dimOrdering = Some ''tf'', attr_bias = None\<rparr>"

definition attrs_bad_border :: attrs where
  "attrs_bad_border =
     \<lparr>attr_name = Some ''conv1'', attr_nbFilter = Some 1, attr_nbRow = Some 3, attr_nbCol = Some 3,
      attr_activation = None, attr_borderMode = Some ''full'', attr_subsample = Some (1, 1),
      attr_dimOrdering = Some ''tf'', attr_bias = None\<rparr>"

text \<open>
  A store with a 5 by 5 by 1 input holding 0 to 24 (wrapper 0), a 3 by 3 by 1 by 1 kernel
  of ones (wrapper 1) and a bias of one zero (wrapper 2).
\<close>

definition heap5 :: "int heap" where
  "heap5 =
     \<lparr>bufs = [map (\<lambda>k. F (int k)) [0..<25], replicate 9 (F 1), [F 0]],
      objs = [\<lparr>tensor = mk_ndarray 0 [5, 5, 1], useWeblas = False\<rparr>,
              \<lparr>tensor = mk_ndarray 1 [3, 3, 1, 1], useWeblas = False\<rparr>,
              \<lparr>tensor = mk_ndarray 2 [1], useWeblas = False\<rparr>]\<rparr>"

definition layer_same_1 :: "int layer" where
  "layer_same_1 =
     \<lparr>name = None, layerClass = ''Convolution2D'', kernelShape = (1, 3, 3), activation = None,
      borderMode = ''same'', subsample = (1, 1), dimOrdering = ''tf'', bias = True,
      params = [''W'', ''b''], weights = (\<lambda>p. None), wRowsMat = None,
      outputShape = Some [5, 5, 1], inputPadding = Some (1, 1, 1, 1)\<rparr>"

text \<open>The values of a view, in row-major order of its index tuples.\<close>

definition tensor_values :: "'a heap \<Rightarrow> ndarray \<Rightarrow> 'a f32 list" where
  "tensor_values h a = map (get h a) (indices (shape a))"

text \<open>
  Modelled from the spec: the direct definition of the convolution (sections 4.5 and 8),
  to be compared with what \<^verbatim>\<open>call\<close> computes: the brute-force loops. For the output
  position (i, j) and the filter f the accumulator starts at the bias of f, and the loops
  over the kernel row di, the kernel column dj and the channel c add
  input[i * strideRows + di, j * strideCols + dj, c] * W[di, dj, c, f] to it, in this order.
  No law of the arithmetic is used.
\<close>

definition direct_conv ::
  "(int list \<Rightarrow> 'v) \<Rightarrow> (int list \<Rightarrow> 'v) \<Rightarrow> (int \<Rightarrow> 'v) \<Rightarrow> int \<times> int \<times> int \<Rightarrow> int \<times> int \<Rightarrow> int list \<Rightarrow>
   'v::{zero,plus,times}" where
  "direct_conv xin w b ksh st out_idx =
     (case (ksh, st, out_idx) of
        ((kr, kc, C), (s0, s1), [i, j, f]) \<Rightarrow>
          foldl (\<lambda>acc di.
            foldl (\<lambda>acc dj.
              foldl (\<lambda>acc c. acc + xin [i * s0 + di, j * s1 + dj, c] * w [di, dj, c, f])
                acc (map int [0..<nat C]))
              acc (map int [0..<nat kc]))
            (b f) (map int [0..<nat kr])
      | _ \<Rightarrow> 0)"

text \<open>A table of activations with the linear activation only, which leaves the values as they are.\<close>

definition linear_only :: "string \<Rightarrow> (int f32 list \<Rightarrow> int f32 list) option" where
  "linear_only n = (if n = ''linear'' then Some (\<lambda>v. v) else None)"

text \<open>One filter of 3 by 3, stride 1, valid mode, with a bias.\<close>

definition attrs_valid_1 :: attrs where
  "attrs_valid_1 =
     \<lparr>attr_name = None, attr_nbFilter = Some 1, attr_nbRow = Some 3, attr_nbCol = Some 3,
      attr_activation = Some ''linear'', attr_borderMode = Some ''valid'', attr_subsample = Some (1, 1),
      attr_dimOrdering = Some ''tf'', attr_bias = Some True\<rparr>"

text \<open>An accelerated routine that returns an empty array.\<close>

definition no_weblas :: "int sgemm" where
  "no_weblas M N K A B C = []"

text \<open>
  The store of the 5 by 5 scenario, with the input flagged for the accelerated
  multiplication.
\<close>

definition heap5_weblas :: "int heap" where
  "heap5_weblas = heap5\<lparr>objs := (objs heap5)[0 := \<lparr>tensor = mk_ndarray 0 [5, 5, 1], useWeblas = True\<rparr>]\<rparr>"

text \<open>
  A store with an input of shape [1, 5, 1] (wrapper 0), a kernel of ones of shape
  [3, 3, 1, 1] (wrapper 1) and a zero bias (wrapper 2).
\<close>

definition heap_thin :: "int heap" where
  "heap_thin =
     \<lparr>bufs = [map (\<lambda>k. F (int k)) [0..<5], replicate 9 (F 1), [F 0]],
      objs = [\<lparr>tensor = mk_ndarray 0 [1, 5, 1], useWeblas = False\<rparr>,
              \<lparr>tensor = mk_ndarray 1 [3, 3, 1, 1], useWeblas = False\<rparr>,
              \<lparr>tensor = mk_ndarray 2 [1], useWeblas = False\<rparr>]\<rparr>"

text \<open>
  What a step may do to the store when it only allocates and only writes into buffers at
  the addresses from \<open>N\<close> on: the wrappers stay as they are and so does every buffer
  below \<open>N\<close>.
\<close>

definition frame :: "nat \<Rightarrow> 'a heap \<Rightarrow> 'a heap \<Rightarrow> bool" where
  "frame N h h' \<longleftrightarrow> objs h' = objs h \<and> length (bufs h) \<le> length (bufs h') \<and> (\<forall>k<N. buf h' k = buf h k)"

text \<open>The layer of the 5 by 5 scenario: one filter of 3 by 3, stride 1, valid mode, linear activation.\<close>

definition layer_valid_1 :: "int layer" where
  "layer_valid_1 =
     \<lparr>name = None, layerClass = ''Convolution2D'', kernelShape = (1, 3, 3),
      activation = Some (\<lambda>v. v), borderMode = ''valid'', subsample = (1, 1),
      dimOrdering = ''tf'', bias = True, params = [''W'', ''b''], weights = (\<lambda>p. None),
      wRowsMat = None, outputShape = None, inputPadding = None\<rparr>"

section \<open>Properties\<close>

lemma length_bwrite [simp]: "length (bwrite xs p v) = length xs"
  by (simp add: bwrite_def)

lemma bread_bwrite_same: "0 \<le> p \<Longrightarrow> p < int (length xs) \<Longrightarrow> bread (bwrite xs p v) p = v"
  by (simp add: bread_def bwrite_def)

lemma bread_bwrite_other: "p \<noteq> q \<Longrightarrow> bread (bwrite xs p v) q = bread xs q"
  by (auto simp: bread_def bwrite_def nth_list_update)

lemma length_foldl_bwrite [simp]:
  "length (foldl (\<lambda>b i. bwrite b (f i) (g b i)) b0 xs) = length b0"
  by (induction xs arbitrary: b0) simp_all

lemma bread_foldl_bwrite_out:
  "q \<notin> f ` set xs \<Longrightarrow> bread (foldl (\<lambda>b i. bwrite b (f i) (g b i)) b0 xs) q = bread b0 q"
  by (induction xs arbitrary: b0) (auto simp: bread_bwrite_other)

lemma bread_foldl_bwrite_in:
  assumes "distinct (map f xs)" and "i \<in> set xs" and "0 \<le> f i" and "f i < int (length b0)"
  shows "bread (foldl (\<lambda>b i. bwrite b (f i) (g b i)) b0 xs) (f i) = g (foldl (\<lambda>b i. bwrite b (f i) (g b i)) b0 (takeWhile (\<lambda>j. j \<noteq> i) xs)) i"
  using assms
proof (induction xs arbitrary: b0)
  case Nil
  then show ?case by simp
next
  case (Cons x xs)
  show ?case
  proof (cases "x = i")
    case True
    then have "f i \<notin> f ` set xs" using Cons.prems(1) by auto
    then show ?thesis using True Cons.prems
      by (simp add: bread_foldl_bwrite_out bread_bwrite_same)
  next
    case False
    then show ?thesis using Cons by simp
  qed
qed

lemma bread_foldl_bwrite_const:
  assumes "distinct (map f xs)" and "i \<in> set xs" and "0 \<le> f i" and "f i < int (length b0)"
  shows "bread (foldl (\<lambda>b i. bwrite b (f i) (g i)) b0 xs) (f i) = g i"
  using bread_foldl_bwrite_in[OF assms, of "\<lambda>b. g"] by simp

lemma bread_foldl_bwrite_acc:
  assumes "distinct (map f xs)" and "i \<in> set xs" and "0 \<le> f i" and "f i < int (length b0)"
  shows "bread (foldl (\<lambda>b i. bwrite b (f i) (G (bread b (f i)) i)) b0 xs) (f i) = G (bread b0 (f i)) i"
proof -
  have inj: "inj_on f (set xs)"
    using assms(1) by (simp add: distinct_map)
  have "f i \<notin> f ` set (takeWhile (\<lambda>j. j \<noteq> i) xs)"
  proof
    assume "f i \<in> f ` set (takeWhile (\<lambda>j. j \<noteq> i) xs)"
    then obtain j where j: "j \<in> set (takeWhile (\<lambda>j. j \<noteq> i) xs)" and e: "f i = f j"
      by auto
    from j have "j \<in> set xs" and "j \<noteq> i"
      by (auto dest: set_takeWhileD)
    with inj e assms(2) show False
      by (auto dest: inj_onD)
  qed
  then show ?thesis
    using bread_foldl_bwrite_in[OF assms, of "\<lambda>b i. G (bread b (f i)) i"]
    by (simp add: bread_foldl_bwrite_out)
qed

subsection \<open>Index tuples\<close>

lemma length_indices: "is \<in> set (indices S) \<Longrightarrow> length is = length S"
  by (induction S arbitrary: "is") auto

lemma set_int_upt: "set (map int [0..<nat n]) = {i. 0 \<le> i \<and> i < n}"
proof (rule set_eqI)
  fix i
  show "i \<in> set (map int [0..<nat n]) \<longleftrightarrow> i \<in> {i. 0 \<le> i \<and> i < n}"
  proof
    assume "i \<in> set (map int [0..<nat n])"
    then show "i \<in> {i. 0 \<le> i \<and> i < n}" by auto
  next
    assume "i \<in> {i. 0 \<le> i \<and> i < n}"
    then have "nat i < nat n" and "int (nat i) = i" by auto
    then have "int (nat i) \<in> int ` {0..<nat n}" by (intro imageI) simp
    then show "i \<in> set (map int [0..<nat n])" using \<open>int (nat i) = i\<close> by simp
  qed
qed

lemma set_indices_Cons:
  "set (indices (n # ns)) = {i # is | i is. 0 \<le> i \<and> i < n \<and> is \<in> set (indices ns)}"
proof -
  have "set (indices (n # ns)) = (\<Union>i\<in>set (map int [0..<nat n]). (#) i ` set (indices ns))"
    by simp
  also have "\<dots> = {i # is | i is. 0 \<le> i \<and> i < n \<and> is \<in> set (indices ns)}"
    unfolding set_int_upt by blast
  finally show ?thesis .
qed

lemma distinct_indices: "distinct (indices S)"
proof (induction S)
  case Nil
  then show ?case by simp
next
  case (Cons n ns)
  show ?case
  proof (cases "indices ns = []")
    case True
    then have e: "indices (n # ns) = []" by (simp add: comp_def)
    show ?thesis unfolding e by simp
  next
    case False
    then obtain y ys where yys: "indices ns = y # ys" by (cases "indices ns") auto
    have d: "distinct (map int [0..<nat n])"
      by (simp add: distinct_map inj_on_def)
    show ?thesis
      unfolding indices.simps
    proof (rule distinct_concat)
      show "distinct (map (\<lambda>i. map ((#) i) (indices ns)) (map int [0..<nat n]))"
        using yys by (simp add: distinct_map comp_def inj_on_def)
    next
      fix ys assume "ys \<in> set (map (\<lambda>i. map ((#) i) (indices ns)) (map int [0..<nat n]))"
      then show "distinct ys" using Cons by (auto simp: distinct_map)
    next
      fix ys zs
      assume "ys \<in> set (map (\<lambda>i. map ((#) i) (indices ns)) (map int [0..<nat n]))"
        and "zs \<in> set (map (\<lambda>i. map ((#) i) (indices ns)) (map int [0..<nat n]))" and "ys \<noteq> zs"
      then show "set ys \<inter> set zs = {}" by auto
    qed
  qed
qed

lemma strides_range:
  "is \<in> set (indices S) \<Longrightarrow> 0 \<le> dot (strides S) is \<and> dot (strides S) is < prod_list S"
proof (induction S arbitrary: "is")
  case Nil
  then show ?case by simp
next
  case (Cons n ns)
  then obtain i js where is_eq: "is = i # js" and i: "0 \<le> i" "i < n" and js: "js \<in> set (indices ns)"
    by (auto simp: set_indices_Cons)
  from Cons.IH[OF js] have r: "0 \<le> dot (strides ns) js" "dot (strides ns) js < prod_list ns"
    by simp_all
  have P: "0 < prod_list ns" using r by simp
  have "prod_list ns * (i + 1) \<le> prod_list ns * n"
    using i P by (intro mult_left_mono) auto
  then have u: "prod_list ns * i + prod_list ns \<le> n * prod_list ns"
    by (simp add: distrib_left mult.commute)
  have l: "0 \<le> prod_list ns * i" using P i by simp
  have "dot (strides (n # ns)) is = prod_list ns * i + dot (strides ns) js"
    by (simp add: is_eq)
  moreover have "prod_list (n # ns) = n * prod_list ns" by simp
  ultimately show ?case using r u l by linarith
qed

lemma strides_inj: "inj_on (dot (strides S)) (set (indices S))"
proof (induction S)
  case Nil
  then show ?case by simp
next
  case (Cons n ns)
  show ?case
  proof (rule inj_onI)
    fix a b
    assume a: "a \<in> set (indices (n # ns))" and b: "b \<in> set (indices (n # ns))"
      and eq: "dot (strides (n # ns)) a = dot (strides (n # ns)) b"
    from a obtain i as where a_eq: "a = i # as" and as: "as \<in> set (indices ns)"
      by (auto simp: set_indices_Cons)
    from b obtain j bs where b_eq: "b = j # bs" and bs: "bs \<in> set (indices ns)"
      by (auto simp: set_indices_Cons)
    let ?P = "prod_list ns"
    let ?r = "dot (strides ns) as" and ?q = "dot (strides ns) bs"
    have ra: "0 \<le> ?r" "?r < ?P" and rb: "0 \<le> ?q" "?q < ?P"
      using strides_range[OF as] strides_range[OF bs] by simp_all
    have e: "?P * i + ?r = ?P * j + ?q" using eq by (simp add: a_eq b_eq)
    have "i = j"
    proof (rule ccontr)
      assume "i \<noteq> j"
      then consider "i < j" | "j < i" by linarith
      then show False
      proof cases
        case 1
        then have "?P * (i + 1) \<le> ?P * j" using ra by (intro mult_left_mono) auto
        then have "?P * i + ?P \<le> ?P * j" by (simp add: distrib_left)
        then show False using e ra rb by linarith
      next
        case 2
        then have "?P * (j + 1) \<le> ?P * i" using ra by (intro mult_left_mono) auto
        then have "?P * j + ?P \<le> ?P * i" by (simp add: distrib_left)
        then show False using e ra rb by linarith
      qed
    qed
    then have "?r = ?q" using e by simp
    then have "as = bs" using Cons as bs by (auto dest: inj_onD)
    then show "a = b" using \<open>i = j\<close> by (simp add: a_eq b_eq)
  qed
qed

subsection \<open>Writes to the store\<close>

lemma length_bufs_set_el [simp]: "length (bufs (set_el h a is v)) = length (bufs h)"
  by (simp add: set_el_def)

lemma objs_set_el [simp]: "objs (set_el h a is v) = objs h"
  by (simp add: set_el_def)

lemma buf_set_el_other: "k \<noteq> data a \<Longrightarrow> buf (set_el h a is v) k = buf h k"
  by (simp add: set_el_def buf_def)

lemma length_buf_set_el [simp]: "length (buf (set_el h a is v) k) = length (buf h k)"
  by (auto simp: set_el_def buf_def nth_list_update)

lemma set_el_eq:
  "length is = length (stride a) \<Longrightarrow>
   set_el h a is v = h\<lparr>bufs := (bufs h)[data a := bwrite (buf h (data a)) (index a is) v]\<rparr>"
  by (simp add: set_el_def)

lemma buf_update_same: "d < length (bufs h) \<Longrightarrow> buf (h\<lparr>bufs := (bufs h)[d := b]\<rparr>) d = b"
  by (simp add: buf_def)

lemma buf_update_other: "k \<noteq> d \<Longrightarrow> buf (h\<lparr>bufs := (bufs h)[d := b]\<rparr>) k = buf h k"
  by (simp add: buf_def)

lemma foldl_set_el:
  assumes "data a < length (bufs h)" and "\<forall>is\<in>set xs. length is = length (stride a)"
    and "\<And>h' h''. (\<forall>k. k \<noteq> data a \<longrightarrow> buf h' k = buf h'' k) \<Longrightarrow> G h' = G h''"
  shows "foldl (\<lambda>h' is. set_el h' a is (G h' (bread (buf h' (data a)) (index a is)) is)) h xs =
         h\<lparr>bufs := (bufs h)[data a :=
              foldl (\<lambda>b is. bwrite b (index a is) (G h (bread b (index a is)) is)) (buf h (data a)) xs]\<rparr>"
  using assms(1,2)
proof (induction xs arbitrary: h)
  case Nil
  then show ?case by (simp add: buf_def)
next
  case (Cons x xs)
  let ?d = "data a"
  let ?b1 = "bwrite (buf h ?d) (index a x) (G h (bread (buf h ?d) (index a x)) x)"
  let ?h1 = "h\<lparr>bufs := (bufs h)[?d := ?b1]\<rparr>"
  have s: "set_el h a x (G h (bread (buf h ?d) (index a x)) x) = ?h1"
    using Cons.prems by (simp add: set_el_eq)
  have G1: "G ?h1 = G h"
    by (rule assms(3)) (simp add: buf_update_other)
  have b1: "buf ?h1 ?d = ?b1"
    using Cons.prems by (simp add: buf_update_same)
  have "foldl (\<lambda>h' is. set_el h' a is (G h' (bread (buf h' ?d) (index a is)) is)) ?h1 xs =
        ?h1\<lparr>bufs := (bufs ?h1)[?d :=
              foldl (\<lambda>b is. bwrite b (index a is) (G ?h1 (bread b (index a is)) is)) (buf ?h1 ?d) xs]\<rparr>"
    using Cons.prems by (intro Cons.IH) simp_all
  then show ?case
    by (simp add: s G1 b1)
qed

lemma assign_eq:
  assumes "data src \<noteq> data dst" and "data dst < length (bufs h)"
    and "length (shape dst) = length (stride dst)"
  shows "assign_loop h dst src =
         h\<lparr>bufs := (bufs h)[data dst :=
              foldl (\<lambda>b is. bwrite b (index dst is) (get h src is)) (buf h (data dst))
                (indices (shape dst))]\<rparr>"
proof -
  have "\<And>(h'::'a heap) h''. (\<forall>k. k \<noteq> data dst \<longrightarrow> buf h' k = buf h'' k) \<Longrightarrow>
          (\<lambda>(v::'a f32) is. get h' src is) = (\<lambda>v is. get h'' src is)"
  proof -
    fix h' h'' :: "'a heap"
    assume "\<forall>k. k \<noteq> data dst \<longrightarrow> buf h' k = buf h'' k"
    then have "buf h' (data src) = buf h'' (data src)" using assms(1) by simp
    then show "(\<lambda>(v::'a f32) is. get h' src is) = (\<lambda>v is. get h'' src is)"
      by (simp add: get_def cong: if_cong)
  qed
  from foldl_set_el[OF assms(2) _ this, of "indices (shape dst)"] assms(3)
  show ?thesis
    by (simp add: assign_loop_def length_indices)
qed

lemma assigns_eq:
  assumes "data dst < length (bufs h)" and "length (shape dst) = length (stride dst)"
  shows "assigns h dst v =
         h\<lparr>bufs := (bufs h)[data dst :=
              foldl (\<lambda>b is. bwrite b (index dst is) v) (buf h (data dst)) (indices (shape dst))]\<rparr>"
proof -
  have "\<And>h' h''::'a heap. (\<forall>k. k \<noteq> data dst \<longrightarrow> buf h' k = buf h'' k) \<Longrightarrow>
          (\<lambda>(w::'a f32) (is::int list). v) = (\<lambda>w is. v)"
    by simp
  from foldl_set_el[OF assms(1) _ this, of "indices (shape dst)"] assms(2)
  show ?thesis
    by (simp add: assigns_def length_indices)
qed

lemma assign_read:
  assumes "view_ok h dst" and "data src \<noteq> data dst" and "is \<in> set (indices (shape dst))"
  shows "bread (buf (assign_loop h dst src) (data dst)) (index dst is) = get h src is"
proof -
  have d: "distinct (map (index dst) (indices (shape dst)))"
    using assms(1) by (simp add: view_ok_def distinct_map distinct_indices)
  have r: "0 \<le> index dst is" "index dst is < int (length (buf h (data dst)))"
    using assms(1,3) by (auto simp: view_ok_def)
  show ?thesis
    using assms(1,2) bread_foldl_bwrite_const[OF d assms(3) r, of "\<lambda>is. get h src is"]
    by (simp add: assign_eq view_ok_def buf_update_same)
qed

lemma assign_read_out:
  assumes "view_ok h dst" and "data src \<noteq> data dst" and "p \<notin> index dst ` set (indices (shape dst))"
  shows "bread (buf (assign_loop h dst src) (data dst)) p = bread (buf h (data dst)) p"
  using assms by (simp add: assign_eq view_ok_def buf_update_same bread_foldl_bwrite_out)

lemma assign_frame:
  assumes "view_ok h dst" and "data src \<noteq> data dst"
  shows "objs (assign_loop h dst src) = objs h" and "length (bufs (assign_loop h dst src)) = length (bufs h)"
    and "k \<noteq> data dst \<Longrightarrow> buf (assign_loop h dst src) k = buf h k"
    and "length (buf (assign_loop h dst src) k) = length (buf h k)"
  using assms by (auto simp: assign_eq view_ok_def buf_def nth_list_update)

declare indices.simps(2) [simp del]

lemma Cons_in_indices [simp]:
  "i # is \<in> set (indices (n # ns)) \<longleftrightarrow> 0 \<le> i \<and> i < n \<and> is \<in> set (indices ns)"
  by (auto simp: set_indices_Cons)

lemma Nil_in_indices_Cons [simp]: "[] \<notin> set (indices (n # ns))"
  by (auto simp: set_indices_Cons)

lemma ball_indices_Cons:
  "(\<forall>is\<in>set (indices (n # ns)). P is) \<longleftrightarrow>
   (\<forall>i. 0 \<le> i \<and> i < n \<longrightarrow> (\<forall>js\<in>set (indices ns). P (i # js)))"
  by (auto simp: set_indices_Cons)

lemma ball_indices_Nil: "(\<forall>is\<in>set (indices []). P is) \<longleftrightarrow> P []"
  by simp

lemma length_strides [simp]: "length (strides S) = length S"
  by (induction S) simp_all

lemma neg_offset_strides: "\<forall>n\<in>set S. 0 \<le> n \<Longrightarrow> neg_offset S (strides S) = 0"
proof (induction S)
  case Nil
  then show ?case by simp
next
  case (Cons n ns)
  then have "0 \<le> prod_list ns" by (simp add: prod_list_nonneg)
  with Cons show ?case by simp
qed

lemma foldl_times_prod: "foldl (*) (a::int) S = a * prod_list S"
  by (induction S arbitrary: a) (simp_all add: mult.assoc)

lemma mk_ndarray_simps [simp]:
  "data (mk_ndarray d S) = d" "shape (mk_ndarray d S) = S" "stride (mk_ndarray d S) = strides S"
  by (simp_all add: mk_ndarray_def)

lemma offset_mk_ndarray: "\<forall>n\<in>set S. 0 \<le> n \<Longrightarrow> offset (mk_ndarray d S) = 0"
  by (simp add: mk_ndarray_def neg_offset_strides)

lemma index_mk_ndarray: "\<forall>n\<in>set S. 0 \<le> n \<Longrightarrow> index (mk_ndarray d S) is = dot (strides S) is"
  by (simp add: index_def offset_mk_ndarray)

lemma view_ok_fresh:
  assumes "\<forall>n\<in>set S. 0 \<le> n" and "d < length (bufs h)" and "int (length (buf h d)) = prod_list S"
  shows "view_ok h (mk_ndarray d S)"
  unfolding view_ok_def
proof (intro conjI ballI)
  have "index (mk_ndarray d S) = dot (strides S)"
    by (rule ext) (simp add: index_mk_ndarray assms(1))
  then show "inj_on (index (mk_ndarray d S)) (set (indices (shape (mk_ndarray d S))))"
    using strides_inj[of S] by simp
next
  fix "is" assume "is \<in> set (indices (shape (mk_ndarray d S)))"
  then show "0 \<le> index (mk_ndarray d S) is" "index (mk_ndarray d S) is < int (length (buf h (data (mk_ndarray d S))))"
    using strides_range[of "is" S] assms by (simp_all add: index_mk_ndarray)
qed (use assms in simp_all)

text \<open>A view into part of another view of the same buffer.\<close>

lemma view_ok_sub:
  assumes "view_ok h parent" and "data sub = data parent"
    and "length (shape sub) = length (stride sub)"
    and "inj_on emb (set (indices (shape sub)))"
    and "\<forall>is\<in>set (indices (shape sub)).
           emb is \<in> set (indices (shape parent)) \<and> index sub is = index parent (emb is)"
  shows "view_ok h sub"
  unfolding view_ok_def
proof (intro conjI ballI)
  show "inj_on (index sub) (set (indices (shape sub)))"
  proof (rule inj_onI)
    fix a b assume a: "a \<in> set (indices (shape sub))" and b: "b \<in> set (indices (shape sub))"
      and e: "index sub a = index sub b"
    then have "index parent (emb a) = index parent (emb b)" using assms(5) by simp
    moreover have "emb a \<in> set (indices (shape parent))" "emb b \<in> set (indices (shape parent))"
      using a b assms(5) by simp_all
    ultimately have "emb a = emb b" using assms(1) by (auto simp: view_ok_def dest: inj_onD)
    then show "a = b" using assms(4) a b by (auto dest: inj_onD)
  qed
next
  fix "is" assume i: "is \<in> set (indices (shape sub))"
  then have "emb is \<in> set (indices (shape parent))" "index sub is = index parent (emb is)"
    using assms(5) by simp_all
  then show "0 \<le> index sub is" "index sub is < int (length (buf h (data sub)))"
    using assms(1,2) by (auto simp: view_ok_def)
qed (use assms in \<open>simp_all add: view_ok_def\<close>)

lemma get_index:
  "length is = length (stride a) \<Longrightarrow> get h a is = bread (buf h (data a)) (index a is)"
  by (simp add: get_def)

lemma assign_sub_in:
  assumes "view_ok h parent" and "data sub = data parent"
    and "length (shape sub) = length (stride sub)"
    and "inj_on emb (set (indices (shape sub)))"
    and "\<forall>is\<in>set (indices (shape sub)).
           emb is \<in> set (indices (shape parent)) \<and> index sub is = index parent (emb is)"
    and "data src \<noteq> data parent" and "is \<in> set (indices (shape sub))"
  shows "get (assign_loop h sub src) parent (emb is) = get h src is"
proof -
  have v: "view_ok h sub" by (rule view_ok_sub[OF assms(1-5)])
  have e: "emb is \<in> set (indices (shape parent))" "index sub is = index parent (emb is)"
    using assms(5,7) by simp_all
  have l: "length (emb is) = length (stride parent)"
    using e(1) assms(1) by (simp add: length_indices view_ok_def)
  show ?thesis
    using assign_read[OF v _ assms(7), of src] assms(2,6) e(2)
    by (simp add: get_index[OF l])
qed

lemma assign_sub_out:
  assumes "view_ok h parent" and "data sub = data parent"
    and "length (shape sub) = length (stride sub)"
    and "inj_on emb (set (indices (shape sub)))"
    and "\<forall>is\<in>set (indices (shape sub)).
           emb is \<in> set (indices (shape parent)) \<and> index sub is = index parent (emb is)"
    and "data src \<noteq> data parent" and "js \<in> set (indices (shape parent))"
    and "js \<notin> emb ` set (indices (shape sub))"
  shows "get (assign_loop h sub src) parent js = get h parent js"
proof -
  have v: "view_ok h sub" by (rule view_ok_sub[OF assms(1-5)])
  have l: "length js = length (stride parent)"
    using assms(1,7) by (simp add: length_indices view_ok_def)
  have "index parent js \<notin> index sub ` set (indices (shape sub))"
  proof
    assume "index parent js \<in> index sub ` set (indices (shape sub))"
    then obtain "is" where i: "is \<in> set (indices (shape sub))" and e: "index parent js = index sub is"
      by auto
    then have "index parent js = index parent (emb is)" and "emb is \<in> set (indices (shape parent))"
      using assms(5) by simp_all
    then have "js = emb is" using assms(1,7) by (auto simp: view_ok_def dest: inj_onD)
    then show False using assms(8) i by auto
  qed
  then show ?thesis
    using assign_read_out[OF v, of src "index parent js"] assms(2,6)
    by (simp add: get_index[OF l])
qed

lemma view_ok_cong:
  "length (bufs h') = length (bufs h) \<Longrightarrow> length (buf h' (data a)) = length (buf h (data a)) \<Longrightarrow>
   view_ok h' a = view_ok h a"
  by (simp add: view_ok_def)

lemma newTensor_ok:
  "0 \<le> prod_list S \<Longrightarrow>
   newTensor h S = Inr (h\<lparr>bufs := bufs h @ [replicate (nat (prod_list S)) 0]\<rparr>,
                        mk_ndarray (length (bufs h)) S)"
  by (simp add: newTensor_def foldl_times_prod)

lemma newTensor_neg: "prod_list S < 0 \<Longrightarrow> newTensor h S = Inl RangeError"
  by (simp add: newTensor_def foldl_times_prod)

lemma buf_alloc:
  "buf (h\<lparr>bufs := bufs h @ [b]\<rparr>) k =
     (if k < length (bufs h) then buf h k else if k = length (bufs h) then b else [])"
  by (simp add: buf_def nth_append)

lemma index_ravel: "0 \<le> n \<Longrightarrow> index (replaceTensorData (mk_ndarray dq [n]) dp) [k] = k"
  by (simp add: index_def replaceTensorData_def mk_ndarray_def)

lemma ravel_copy:
  fixes h :: "'a heap" and dq :: addr
  assumes S: "\<forall>n\<in>set S. 0 \<le> n"
    and patch: "dp < length (bufs h)" "int (length (buf h dp)) = prod_list S"
    and parent: "view_ok h parent" "data parent \<noteq> dp"
    and src: "data src \<noteq> dp" "data src \<noteq> data parent"
    and sub: "data sub = data parent" "shape sub = [prod_list S]" "length (stride sub) = 1"
    and emb: "inj_on emb (set (indices [prod_list S]))"
      "\<forall>is\<in>set (indices [prod_list S]).
         emb is \<in> set (indices (shape parent)) \<and> index sub is = index parent (emb is)"
  defines "h2 \<equiv> assign_loop (assign_loop h (mk_ndarray dp S) src) sub (replaceTensorData (mk_ndarray dq [prod_list S]) dp)"
  shows "is \<in> set (indices S) \<Longrightarrow> get h2 parent (emb [dot (strides S) is]) = get h src is"
    and "js \<in> set (indices (shape parent)) \<Longrightarrow> js \<notin> emb ` set (indices [prod_list S]) \<Longrightarrow>
         get h2 parent js = get h parent js"
    and "objs h2 = objs h" and "length (bufs h2) = length (bufs h)"
    and "k \<noteq> dp \<Longrightarrow> k \<noteq> data parent \<Longrightarrow> buf h2 k = buf h k"
    and "length (buf h2 k) = length (buf h k)"
proof -
  let ?patch = "mk_ndarray dp S"
  let ?pr = "replaceTensorData (mk_ndarray dq [prod_list S]) dp"
  let ?h1 = "assign_loop h ?patch src"
  have vp: "view_ok h ?patch"
    by (rule view_ok_fresh[OF S patch])
  have sp: "data src \<noteq> data ?patch" using src(1) by simp
  note f1 = assign_frame[OF vp sp]
  have r1: "bread (buf ?h1 dp) (dot (strides S) is) = get h src is" if "is \<in> set (indices S)" for "is"
    using assign_read[OF vp sp, of "is"] that by (simp add: index_mk_ndarray[OF S])
  have v1: "view_ok ?h1 parent"
    using view_ok_cong[of ?h1 h parent] parent(1) f1(2) f1(4)[of "data parent"] by simp
  have lsub: "length (shape sub) = length (stride sub)" using sub by simp
  have emb': "inj_on emb (set (indices (shape sub)))"
    "\<forall>is\<in>set (indices (shape sub)).
         emb is \<in> set (indices (shape parent)) \<and> index sub is = index parent (emb is)"
    using emb sub(2) by simp_all
  have dpr: "data ?pr \<noteq> data parent" using parent(2) by (simp add: replaceTensorData_def)
  have vs: "view_ok ?h1 sub" by (rule view_ok_sub[OF v1 sub(1) lsub emb'])
  have dps: "data ?pr \<noteq> data sub" using dpr sub(1) by simp
  note f2 = assign_frame[OF vs dps]
  have K: "0 \<le> prod_list S" using S by (simp add: prod_list_nonneg)
  show "get h2 parent (emb [dot (strides S) is]) = get h src is" if i: "is \<in> set (indices S)"
  proof -
    have k: "[dot (strides S) is] \<in> set (indices (shape sub))"
      using strides_range[OF i] sub(2) by simp
    have "get h2 parent (emb [dot (strides S) is]) = get ?h1 ?pr [dot (strides S) is]"
      unfolding h2_def by (rule assign_sub_in[OF v1 sub(1) lsub emb' dpr k])
    also have "\<dots> = bread (buf ?h1 dp) (dot (strides S) is)"
      using K by (simp add: get_def index_ravel) (simp add: replaceTensorData_def)
    finally show ?thesis using r1[OF i] by simp
  qed
  show "get h2 parent js = get h parent js"
    if j: "js \<in> set (indices (shape parent))" "js \<notin> emb ` set (indices [prod_list S])"
  proof -
    have "get h2 parent js = get ?h1 parent js"
      unfolding h2_def using j sub(2) by (intro assign_sub_out[OF v1 sub(1) lsub emb' dpr]) simp_all
    also have "\<dots> = get h parent js"
      using f1(3)[of "data parent"] parent(2) by (simp add: get_def)
    finally show ?thesis .
  qed
  show "objs h2 = objs h" "length (bufs h2) = length (bufs h)"
    unfolding h2_def using f1 f2 by simp_all
  show "buf h2 k = buf h k" if "k \<noteq> dp" "k \<noteq> data parent"
    unfolding h2_def using f1(3)[of k] f2(3)[of k] that sub(1) by simp
  show "length (buf h2 k) = length (buf h k)"
    unfolding h2_def using f1(4)[of k] f2(4)[of k] by simp
qed

lemma unravel_copy:
  fixes h :: "'a heap" and dc :: addr
  assumes S: "\<forall>n\<in>set S. 0 \<le> n"
    and ocr: "dr < length (bufs h)" "int (length (buf h dr)) = prod_list S"
    and parent: "view_ok h parent" "data parent \<noteq> dr"
    and src: "data src \<noteq> dr" "data src \<noteq> data parent"
    and sub: "data sub = data parent" "shape sub = S" "length (stride sub) = length S"
    and emb: "inj_on emb (set (indices S))"
      "\<forall>is\<in>set (indices S).
         emb is \<in> set (indices (shape parent)) \<and> index sub is = index parent (emb is)"
  defines "h2 \<equiv> assign_loop (assign_loop h (mk_ndarray dr [prod_list S]) src) sub (replaceTensorData (mk_ndarray dc S) dr)"
  shows "is \<in> set (indices S) \<Longrightarrow> get h2 parent (emb is) = get h src [dot (strides S) is]"
    and "js \<in> set (indices (shape parent)) \<Longrightarrow> js \<notin> emb ` set (indices S) \<Longrightarrow>
         get h2 parent js = get h parent js"
    and "objs h2 = objs h" and "length (bufs h2) = length (bufs h)"
    and "k \<noteq> dr \<Longrightarrow> k \<noteq> data parent \<Longrightarrow> buf h2 k = buf h k"
    and "length (buf h2 k) = length (buf h k)"
proof -
  let ?ocr = "mk_ndarray dr [prod_list S]"
  let ?oc = "replaceTensorData (mk_ndarray dc S) dr"
  let ?h1 = "assign_loop h ?ocr src"
  have K: "0 \<le> prod_list S" using S by (simp add: prod_list_nonneg)
  have vp: "view_ok h ?ocr"
    using K ocr by (intro view_ok_fresh) simp_all
  have sp: "data src \<noteq> data ?ocr" using src(1) by simp
  note f1 = assign_frame[OF vp sp]
  have r1: "bread (buf ?h1 dr) k = get h src [k]" if "0 \<le> k" "k < prod_list S" for k
    using assign_read[OF vp sp, of "[k]"] that K by (simp add: index_def mk_ndarray_def)
  have v1: "view_ok ?h1 parent"
    using view_ok_cong[of ?h1 h parent] parent(1) f1(2) f1(4)[of "data parent"] by simp
  have lsub: "length (shape sub) = length (stride sub)" using sub by simp
  have emb': "inj_on emb (set (indices (shape sub)))"
    "\<forall>is\<in>set (indices (shape sub)).
         emb is \<in> set (indices (shape parent)) \<and> index sub is = index parent (emb is)"
    using emb sub(2) by simp_all
  have dpr: "data ?oc \<noteq> data parent" using parent(2) by (simp add: replaceTensorData_def)
  have vs: "view_ok ?h1 sub" by (rule view_ok_sub[OF v1 sub(1) lsub emb'])
  have dps: "data ?oc \<noteq> data sub" using dpr sub(1) by simp
  note f2 = assign_frame[OF vs dps]
  show "get h2 parent (emb is) = get h src [dot (strides S) is]" if i: "is \<in> set (indices S)"
  proof -
    have k: "is \<in> set (indices (shape sub))" using i sub(2) by simp
    have "get h2 parent (emb is) = get ?h1 ?oc is"
      unfolding h2_def by (rule assign_sub_in[OF v1 sub(1) lsub emb' dpr k])
    also have "\<dots> = bread (buf ?h1 dr) (dot (strides S) is)"
      using length_indices[OF i] S
      by (simp add: get_def index_def replaceTensorData_def offset_mk_ndarray)
    finally show ?thesis using r1 strides_range[OF i] by simp
  qed
  show "get h2 parent js = get h parent js"
    if j: "js \<in> set (indices (shape parent))" "js \<notin> emb ` set (indices S)"
  proof -
    have "get h2 parent js = get ?h1 parent js"
      unfolding h2_def using j sub(2) by (intro assign_sub_out[OF v1 sub(1) lsub emb' dpr]) simp_all
    also have "\<dots> = get h parent js"
      using f1(3)[of "data parent"] parent(2) by (simp add: get_def)
    finally show ?thesis .
  qed
  show "objs h2 = objs h" "length (bufs h2) = length (bufs h)"
    unfolding h2_def using f1 f2 by simp_all
  show "buf h2 k = buf h k" if "k \<noteq> dr" "k \<noteq> data parent"
    unfolding h2_def using f1(3)[of k] f2(3)[of k] that sub(1) by simp
  show "length (buf h2 k) = length (buf h k)"
    unfolding h2_def using f1(4)[of k] f2(4)[of k] by simp
qed

lemma w2row_body_copy:
  assumes "shape W = [kr, kc, C, wf0]" and "shape patch = [kr, kc, C]" and "shape wRows = [K, nf]"
    and "shape pr = [K]" and "0 \<le> n"
  shows "w2row_body W wRows patch pr n h = Inr (w2row_copy W wRows patch pr h n)"
  using assms
  by (simp add: w2row_body_def w2row_copy_def assign_def ebind_def pick_def replaceTensorData_def Let_def)

lemma for_loop_total:
  "0 < step \<Longrightarrow> I s \<Longrightarrow> (\<And>j s. i \<le> j \<Longrightarrow> I s \<Longrightarrow> body j s = Inr (f j s) \<and> I (f j s)) \<Longrightarrow>
   for_loop i limit step body s =
     Inr (foldl (\<lambda>s i. f i s) s
           (map (\<lambda>k. i + int k * step) [0..<nat ((limit - i) div step + 1)]))
   \<and> I (foldl (\<lambda>s i. f i s) s
           (map (\<lambda>k. i + int k * step) [0..<nat ((limit - i) div step + 1)]))"
proof (induction i limit step body s rule: for_loop.induct)
  case (1 i limit step body s)
  note pos = \<open>0 < step\<close> and inv = \<open>I s\<close>
    and tot = \<open>\<And>j s. i \<le> j \<Longrightarrow> I s \<Longrightarrow> body j s = Inr (f j s) \<and> I (f j s)\<close>
  show ?case
  proof (cases "i \<le> limit")
    case False
    then have "(limit - i) div step < 0"
      using pos by (intro div_neg_pos_less0) simp_all
    then show ?thesis using False inv
      by (subst for_loop.simps) simp
  next
    case True
    let ?n = "nat ((limit - i) div step + 1)"
    have d: "0 \<le> (limit - i) div step" using True pos by (simp add: pos_imp_zdiv_nonneg_iff)
    have e: "(limit - (i + step)) div step = (limit - i) div step - 1"
    proof -
      have "limit - i = limit - (i + step) + step" by simp
      then have "(limit - i) div step = (limit - (i + step)) div step + 1"
        using pos div_add_self2[of step "limit - (i + step)"] by simp
      then show ?thesis by simp
    qed
    have n: "?n = Suc (nat ((limit - (i + step)) div step + 1))"
      using d e by simp
    have l: "map (\<lambda>k. i + int k * step) [0..<?n] =
             i # map (\<lambda>k. i + step + int k * step) [0..<nat ((limit - (i + step)) div step + 1)]"
      unfolding n by (simp add: upt_conv_Cons map_Suc_upt[symmetric] del: upt_Suc)
        (simp add: algebra_simps)
    have b: "body i s = Inr (f i s)" and inv': "I (f i s)" using tot[OF order_refl inv] by simp_all
    have tot': "body j s = Inr (f j s) \<and> I (f j s)" if "i + step \<le> j" "I s" for j s
      using tot[of j s] that pos by simp
    have np: "\<not> step \<le> 0" using pos by simp
    note IH = "1.IH"[OF True b np pos inv' tot']
    show ?thesis
      using True pos b IH unfolding l
      by (subst for_loop.simps) simp
  qed
qed

lemma for_loop_count:
  assumes "\<And>j s. 0 \<le> j \<Longrightarrow> body j s = Inr (f s j)"
  shows "for_loop 0 (n - 1) 1 body s = Inr (foldl f s (map int [0..<nat n]))"
  using for_loop_total[of 1 "\<lambda>s. True" s 0 body "\<lambda>j s. f s j" "n - 1"] assms by simp

lemma get_pick4:
  assumes "length (stride a) = 4" and "0 \<le> n" and "length is = 3"
  shows "get h (pick a [None, None, None, Some n]) is = get h a (is @ [n])"
proof -
  obtain s0 s1 s2 s3 where s: "stride a = [s0, s1, s2, s3]"
    using assms(1) by (auto simp: length_Suc_conv numeral_eq_Suc)
  obtain i j c where i: "is = [i, j, c]"
    using assms(3) by (auto simp: length_Suc_conv numeral_eq_Suc)
  show ?thesis
    using assms(2) by (simp add: get_def index_def pick_def s i algebra_simps)
qed

lemma w2row_loop:
  fixes h3 :: "'a::zero heap"
  assumes dims: "0 \<le> kr" "0 \<le> kc" "0 \<le> C" "0 \<le> nf"
    and W: "length (stride W) = 4" "data W < N"
    and len: "length (bufs h3) = N + 3"
      "int (length (buf h3 N)) = prod_list [kr * kc * C, nf]"
      "int (length (buf h3 (N + 1))) = prod_list [kr, kc, C]"
    and m: "int m \<le> nf"
  defines "wr \<equiv> mk_ndarray N [kr * kc * C, nf]"
  defines "hm \<equiv> foldl (w2row_copy W wr (mk_ndarray (N + 1) [kr, kc, C]) (mk_ndarray (N + 2) [kr * kc * C])) h3
                   (map int [0..<m])"
  shows "objs hm = objs h3 \<and> length (bufs hm) = N + 3
       \<and> (\<forall>k. length (buf hm k) = length (buf h3 k))
       \<and> (\<forall>k<N. buf hm k = buf h3 k)
       \<and> (\<forall>is\<in>set (indices [kr, kc, C]). \<forall>f. 0 \<le> f \<and> f < int m \<longrightarrow>
            get hm wr [dot (strides [kr, kc, C]) is, f] = get h3 W (is @ [f]))"
  using m unfolding hm_def
proof (induction m)
  case 0
  then show ?case using len by auto
next
  case (Suc m)
  let ?S = "[kr, kc, C]"
  let ?body = "w2row_copy W wr (mk_ndarray (N + 1) ?S) (mk_ndarray (N + 2) [kr * kc * C])"
  let ?h = "foldl ?body h3 (map int [0..<m])"
  let ?n = "int m"
  let ?src = "pick W [None, None, None, Some ?n]"
  let ?sub = "pick wr [None, Some ?n]"
  let ?emb = "\<lambda>is. is @ [?n]"
  have IH: "objs ?h = objs h3" "length (bufs ?h) = N + 3" "\<And>k. length (buf ?h k) = length (buf h3 k)"
    "\<And>k. k < N \<Longrightarrow> buf ?h k = buf h3 k"
    "\<And>is f. is \<in> set (indices ?S) \<Longrightarrow> 0 \<le> f \<Longrightarrow> f < ?n \<Longrightarrow>
       get ?h wr [dot (strides ?S) is, f] = get h3 W (is @ [f])"
    using Suc by simp_all
  have nF: "?n < nf" using Suc.prems by simp
  have K: "prod_list ?S = kr * kc * C" by (simp add: mult.assoc)
  have S: "\<forall>n\<in>set ?S. 0 \<le> n" using dims by simp
  have Kn: "0 \<le> kr * kc * C" using dims by simp
  have vwr: "view_ok ?h wr"
    using dims len IH(2) IH(3)[of N] Kn unfolding wr_def by (intro view_ok_fresh) simp_all
  have step: "foldl ?body h3 (map int [0..<Suc m]) =
      assign_loop (assign_loop ?h (mk_ndarray (N + 1) ?S) ?src) ?sub
        (replaceTensorData (mk_ndarray (N + 2) [prod_list ?S]) (N + 1))"
    by (simp add: w2row_copy_def Let_def mult.assoc)
  have offs: "offset wr = 0" using dims Kn unfolding wr_def by (intro offset_mk_ndarray) simp
  have embp: "\<forall>is\<in>set (indices [prod_list ?S]).
         ?emb is \<in> set (indices (shape wr)) \<and> index ?sub is = index wr (?emb is)"
    using nF offs unfolding K
    by (simp add: ball_indices_Cons wr_def index_def pick_def)
  note rc = ravel_copy[where h = ?h and S = ?S and dp = "N + 1" and parent = wr and src = ?src
      and sub = ?sub and emb = ?emb and dq = "N + 2", OF S _ _ vwr _ _ _ _ _ _ _ embp, folded step]
  have pre: "N + 1 < length (bufs ?h)" "int (length (buf ?h (N + 1))) = prod_list ?S"
    "data wr \<noteq> N + 1" "data ?src \<noteq> N + 1" "data ?src \<noteq> data wr" "data ?sub = data wr"
    "shape ?sub = [prod_list ?S]" "length (stride ?sub) = 1" "inj_on ?emb (set (indices [prod_list ?S]))"
    using IH(2) IH(3)[of "N + 1"] len W(2) unfolding K
    by (simp_all add: wr_def pick_def inj_on_def)
  note rc' = rc[OF pre]
  let ?h2 = "foldl ?body h3 (map int [0..<Suc m])"
  have g: "get ?h2 wr [dot (strides ?S) is, f] = get h3 W (is @ [f])"
    if i: "is \<in> set (indices ?S)" and f: "0 \<le> f" "f < int (Suc m)" for "is" f
  proof (cases "f = ?n")
    case True
    have "get ?h2 wr ([dot (strides ?S) is] @ [?n]) = get ?h ?src is"
      by (rule rc'(1)[OF i])
    also have "\<dots> = get ?h W (is @ [?n])"
      using W(1) length_indices[OF i] by (intro get_pick4) simp_all
    also have "\<dots> = get h3 W (is @ [?n])"
      using IH(4)[OF W(2)] by (simp add: get_def)
    finally show ?thesis using True by simp
  next
    case False
    then have fm: "f < ?n" using f by simp
    have r: "0 \<le> dot (strides ?S) is" "dot (strides ?S) is < kr * kc * C"
      using strides_range[OF i] K by simp_all
    have "[dot (strides ?S) is, f] \<in> set (indices (shape wr))"
      using r f fm nF by (simp add: wr_def)
    moreover have "[dot (strides ?S) is, f] \<notin> ?emb ` set (indices [prod_list ?S])"
      using False by auto
    ultimately have "get ?h2 wr [dot (strides ?S) is, f] = get ?h wr [dot (strides ?S) is, f]"
      by (rule rc'(2))
    then show ?thesis using IH(5)[OF i f(1) fm] by simp
  qed
  have fr: "buf ?h2 k = buf h3 k" if "k < N" for k
    using rc'(5)[of k] that IH(4)[OF that] by (simp add: wr_def)
  show ?case
    using rc'(3,4,6) IH(1,2,3) g fr by simp
qed

lemma w2row_spec:
  fixes h :: "'a::zero heap"
  assumes "weights L ''W'' = Some w" and "deref h w = Some wt"
    and "shape (tensor wt) = [kr, kc, C, wf0]" and "length (stride (tensor wt)) = 4"
    and "data (tensor wt) < length (bufs h)"
    and "kernelShape L = (nf, kr, kc)" and "0 \<le> kr" "0 \<le> kc" "0 \<le> C" "0 \<le> nf"
  shows "\<exists>h'. w2row L h = Inr (h', mk_ndarray (length (bufs h)) [kr * kc * C, nf])
       \<and> objs h' = objs h \<and> length (bufs h') = length (bufs h) + 3
       \<and> (\<forall>k<length (bufs h). buf h' k = buf h k)
       \<and> int (length (buf h' (length (bufs h)))) = kr * kc * C * nf
       \<and> (\<forall>is\<in>set (indices [kr, kc, C]). \<forall>f. 0 \<le> f \<and> f < nf \<longrightarrow>
            get h' (mk_ndarray (length (bufs h)) [kr * kc * C, nf]) [dot (strides [kr, kc, C]) is, f]
              = get h (tensor wt) (is @ [f]))"
proof -
  let ?N = "length (bufs h)"
  let ?K = "kr * kc * C"
  let ?h1 = "h\<lparr>bufs := bufs h @ [replicate (nat (?K * nf)) 0]\<rparr>"
  let ?h2 = "?h1\<lparr>bufs := bufs ?h1 @ [replicate (nat ?K) 0]\<rparr>"
  let ?h3 = "?h2\<lparr>bufs := bufs ?h2 @ [replicate (nat ?K) 0]\<rparr>"
  have Kn: "0 \<le> ?K" "0 \<le> ?K * nf" using assms(7-10) by simp_all
  have a1: "newTensor h [?K, nf] = Inr (?h1, mk_ndarray ?N [?K, nf])"
    using Kn newTensor_ok[of "[?K, nf]" h] by simp
  have a2: "newTensor ?h1 [kr, kc, C] = Inr (?h2, mk_ndarray (?N + 1) [kr, kc, C])"
    using Kn newTensor_ok[of "[kr, kc, C]" ?h1] by (simp add: mult.assoc)
  have a3: "newTensor ?h2 [?K] = Inr (?h3, mk_ndarray (?N + 2) [?K])"
    using Kn newTensor_ok[of "[?K]" ?h2] by simp
  have len: "length (bufs ?h3) = ?N + 3"
    "int (length (buf ?h3 ?N)) = prod_list [?K, nf]"
    "int (length (buf ?h3 (?N + 1))) = prod_list [kr, kc, C]"
    using Kn by (simp_all add: buf_def nth_append mult.assoc)
  have m: "int (nat nf) \<le> nf" using assms(10) by simp
  note loop = w2row_loop[OF assms(7-10) assms(4,5) len m]
  let ?hm = "foldl (w2row_copy (tensor wt) (mk_ndarray ?N [?K, nf]) (mk_ndarray (?N + 1) [kr, kc, C])
                (mk_ndarray (?N + 2) [?K])) ?h3 (map int [0..<nat nf])"
  have lp: "for_loop 0 (nf - 1) 1
              (w2row_body (tensor wt) (mk_ndarray ?N [?K, nf]) (mk_ndarray (?N + 1) [kr, kc, C])
                 (mk_ndarray (?N + 2) [?K])) ?h3 = Inr ?hm"
    by (rule for_loop_count) (rule w2row_body_copy[OF assms(3)], simp_all)
  have r: "w2row L h = Inr (?hm, mk_ndarray ?N [?K, nf])"
    using assms(1,2,3,6) a1 a2 a3 lp by (simp add: w2row_def ebind_def Let_def)
  have old: "buf ?h3 k = buf h k" if "k < ?N" for k
    using that by (simp add: buf_def nth_append)
  have W3: "get ?h3 (tensor wt) js = get h (tensor wt) js" for js
    using old[OF assms(5)] by (simp add: get_def)
  from loop have L1: "objs ?hm = objs ?h3" and L2: "length (bufs ?hm) = ?N + 3"
    and L3: "\<And>k. length (buf ?hm k) = length (buf ?h3 k)"
    and L4: "\<And>k. k < ?N \<Longrightarrow> buf ?hm k = buf ?h3 k"
    and L5: "\<And>is f. is \<in> set (indices [kr, kc, C]) \<Longrightarrow> 0 \<le> f \<Longrightarrow> f < int (nat nf) \<Longrightarrow>
         get ?hm (mk_ndarray ?N [?K, nf]) [dot (strides [kr, kc, C]) is, f] = get ?h3 (tensor wt) (is @ [f])"
    by simp_all
  have c1: "objs ?hm = objs h" using L1 by simp
  have c3: "\<forall>k<?N. buf ?hm k = buf h k" using L4 old by simp
  have c4: "int (length (buf ?hm ?N)) = ?K * nf" using L3[of ?N] len(2) by simp
  have c5: "\<forall>is\<in>set (indices [kr, kc, C]). \<forall>f. 0 \<le> f \<and> f < nf \<longrightarrow>
            get ?hm (mk_ndarray ?N [?K, nf]) [dot (strides [kr, kc, C]) is, f] = get h (tensor wt) (is @ [f])"
    using L5 W3 assms(10) by simp
  show ?thesis
    using r c1 L2 c3 c4 c5 by blast
qed

lemma get_window:
  assumes "length (stride X) = 3" and "0 \<le> i" and "0 \<le> j"
  shows "get h (lo (hi X [a, b, c']) [i, j, 0]) [di, dj, c] = get h X [i + di, j + dj, c]"
proof -
  obtain s0 s1 s2 where s: "stride X = [s0, s1, s2]"
    using assms(1) by (auto simp: length_Suc_conv numeral_eq_Suc)
  show ?thesis
    using assms(2,3) by (simp add: get_def index_def lo_def hi_def s algebra_simps)
qed

lemma foldl_product:
  "foldl (\<lambda>s i. foldl (\<lambda>s j. g i j s) s js) s is = foldl (\<lambda>s (i, j). g i j s) s (List.product is js)"
  by (induction "is" arbitrary: s) (simp_all add: foldl_map)

lemma im2col_body_step:
  assumes "shape xa = [Hc, Wc, C]" and "shape patch = [kr, kc, C]" and "shape im = [P, K]"
    and "shape pr = [K]" and "0 \<le> kr" "0 \<le> kc" and "0 \<le> i" "0 \<le> j" and "0 \<le> snd s"
  shows "im2col_body xa im patch pr kr kc C i j s = Inr (im2col_step xa im patch pr kr kc C i j s)"
    and "0 \<le> snd (im2col_step xa im patch pr kr kc C i j s)"
  using assms
  by (auto simp: im2col_body_def im2col_step_def assign_def ebind_def Let_def hi_def lo_def pick_def
        replaceTensorData_def split: prod.splits)

lemma im2col_step_fst_snd:
  "im2col_step xa im patch pr kr kc C i j s =
     (assign_loop (assign_loop (fst s) patch (lo (hi xa [i + kr, j + kc, C]) [i, j, 0]))
        (pick im [Some (snd s), None]) (replaceTensorData pr (data patch)), snd s + 1)"
  by (simp add: im2col_step_def split: prod.splits)

lemma im2col_loop:
  fixes h3 :: "'a::zero heap"
  assumes dims: "0 \<le> kr" "0 \<le> kc" "0 \<le> C" "0 \<le> s0" "0 \<le> s1"
    and X: "length (stride X) = 3" "data X < N"
    and len: "length (bufs h3) = N + 3"
      "int (length (buf h3 N)) = prod_list [int nr * int nc, kr * kc * C]"
      "int (length (buf h3 (N + 1))) = prod_list [kr, kc, C]"
    and t: "t \<le> nr * nc"
  defines "im \<equiv> mk_ndarray N [int nr * int nc, kr * kc * C]"
  defines "st \<equiv> foldl (\<lambda>s (i, j). im2col_step X im (mk_ndarray (N + 1) [kr, kc, C])
                        (mk_ndarray (N + 2) [kr * kc * C]) kr kc C i j s) (h3, 0)
                   (take t (List.product (map (\<lambda>k. int k * s0) [0..<nr]) (map (\<lambda>k. int k * s1) [0..<nc])))"
  shows "snd st = int t \<and> objs (fst st) = objs h3 \<and> length (bufs (fst st)) = N + 3
       \<and> (\<forall>k. length (buf (fst st) k) = length (buf h3 k))
       \<and> (\<forall>k<N. buf (fst st) k = buf h3 k)
       \<and> (\<forall>p<t. \<forall>di dj c. [di, dj, c] \<in> set (indices [kr, kc, C]) \<longrightarrow>
            get (fst st) im [int p, dot (strides [kr, kc, C]) [di, dj, c]] =
            get h3 X [int (p div nc) * s0 + di, int (p mod nc) * s1 + dj, c])"
  using t unfolding st_def
proof (induction t)
  case 0
  then show ?case using len by auto
next
  case (Suc t)
  let ?S = "[kr, kc, C]"
  let ?is = "map (\<lambda>k. int k * s0) [0..<nr]" and ?js = "map (\<lambda>k. int k * s1) [0..<nc]"
  let ?items = "List.product ?is ?js"
  let ?patch = "mk_ndarray (N + 1) ?S" and ?pr = "mk_ndarray (N + 2) [kr * kc * C]"
  let ?f = "\<lambda>s (i, j). im2col_step X im ?patch ?pr kr kc C i j s"
  let ?st = "foldl ?f (h3, 0) (take t ?items)"
  let ?h = "fst ?st"
  let ?n = "int t"
  let ?i = "int (t div nc) * s0" and ?j = "int (t mod nc) * s1"
  let ?src = "lo (hi X [?i + kr, ?j + kc, C]) [?i, ?j, 0]"
  let ?sub = "pick im [Some ?n, None]"
  let ?emb = "\<lambda>is. ?n # is"
  have tl: "t < nr * nc" using Suc.prems by simp
  then have nc0: "0 < nc" by (cases nc) auto
  have IH: "snd ?st = ?n" "objs ?h = objs h3" "length (bufs ?h) = N + 3"
    "\<And>k. length (buf ?h k) = length (buf h3 k)"
    "\<And>k. k < N \<Longrightarrow> buf ?h k = buf h3 k"
    "\<And>p di dj c. p < t \<Longrightarrow> [di, dj, c] \<in> set (indices ?S) \<Longrightarrow>
       get ?h im [int p, dot (strides ?S) [di, dj, c]] =
       get h3 X [int (p div nc) * s0 + di, int (p mod nc) * s1 + dj, c]"
    using Suc by simp_all
  have item: "?items ! t = (?i, ?j)"
    using tl nc0 by (simp add: product_nth less_mult_imp_div_less)
  have tk: "take (Suc t) ?items = take t ?items @ [(?i, ?j)]"
    using tl item by (simp add: take_Suc_conv_app_nth)
  have K: "prod_list ?S = kr * kc * C" by (simp add: mult.assoc)
  have S: "\<forall>n\<in>set ?S. 0 \<le> n" using dims by simp
  have Kn: "0 \<le> kr * kc * C" using dims by simp
  have vim: "view_ok ?h im"
    using dims len IH(3) IH(4)[of N] Kn unfolding im_def by (intro view_ok_fresh) simp_all
  let ?st2 = "foldl ?f (h3, 0) (take (Suc t) ?items)"
  have step: "fst ?st2 =
      assign_loop (assign_loop ?h ?patch ?src) ?sub (replaceTensorData (mk_ndarray (N + 2) [prod_list ?S]) (N + 1))"
    and cnt: "snd ?st2 = int (Suc t)"
  proof -
    have e1: "?st2 = im2col_step X im ?patch ?pr kr kc C ?i ?j ?st"
      unfolding tk by simp
    have e2: "im2col_step X im ?patch ?pr kr kc C ?i ?j ?st =
        (assign_loop (assign_loop ?h ?patch ?src) (pick im [Some (snd ?st), None])
           (replaceTensorData ?pr (data ?patch)), snd ?st + 1)"
      by (rule im2col_step_fst_snd)
    show "fst ?st2 =
      assign_loop (assign_loop ?h ?patch ?src) ?sub (replaceTensorData (mk_ndarray (N + 2) [prod_list ?S]) (N + 1))"
      and "snd ?st2 = int (Suc t)"
      unfolding e1 e2 IH(1) by (simp_all add: mult.assoc)
  qed
  have offs: "offset im = 0" using dims Kn unfolding im_def by (intro offset_mk_ndarray) simp
  have tP: "?n < int nr * int nc" using tl by (metis of_nat_less_iff of_nat_mult)
  have embp: "\<forall>is\<in>set (indices [prod_list ?S]).
         ?emb is \<in> set (indices (shape im)) \<and> index ?sub is = index im (?emb is)"
    using tP offs unfolding K
    by (simp add: ball_indices_Cons im_def index_def pick_def)
  note rc = ravel_copy[where h = ?h and S = ?S and dp = "N + 1" and parent = im and src = ?src
      and sub = ?sub and emb = ?emb and dq = "N + 2", OF S _ _ vim _ _ _ _ _ _ _ embp, folded step]
  have pre: "N + 1 < length (bufs ?h)" "int (length (buf ?h (N + 1))) = prod_list ?S"
    "data im \<noteq> N + 1" "data ?src \<noteq> N + 1" "data ?src \<noteq> data im" "data ?sub = data im"
    "shape ?sub = [prod_list ?S]" "length (stride ?sub) = 1" "inj_on ?emb (set (indices [prod_list ?S]))"
    using IH(3) IH(4)[of "N + 1"] len X(2) unfolding K
    by (simp_all add: im_def pick_def lo_def hi_def inj_on_def)
  note rc' = rc[OF pre]
  have ij: "0 \<le> ?i" "0 \<le> ?j" using dims by simp_all
  have g: "get (fst ?st2) im [int p, dot (strides ?S) [di, dj, c]] =
           get h3 X [int (p div nc) * s0 + di, int (p mod nc) * s1 + dj, c]"
    if p: "p < Suc t" and i: "[di, dj, c] \<in> set (indices ?S)" for p di dj c
  proof (cases "p = t")
    case True
    have "get (fst ?st2) im (?n # [dot (strides ?S) [di, dj, c]]) = get ?h ?src [di, dj, c]"
      by (rule rc'(1)[OF i])
    also have "\<dots> = get ?h X [?i + di, ?j + dj, c]"
      by (rule get_window[OF X(1) ij])
    also have "\<dots> = get h3 X [?i + di, ?j + dj, c]"
      using IH(5)[OF X(2)] by (simp add: get_def)
    finally show ?thesis using True by simp
  next
    case False
    then have pt: "p < t" using p by simp
    have r: "0 \<le> dot (strides ?S) [di, dj, c]" "dot (strides ?S) [di, dj, c] < kr * kc * C"
      using strides_range[OF i] K by simp_all
    have "int p < int nr * int nc" using pt tP by simp
    then have "[int p, dot (strides ?S) [di, dj, c]] \<in> set (indices (shape im))"
      using r by (simp add: im_def)
    moreover have "[int p, dot (strides ?S) [di, dj, c]] \<notin> ?emb ` set (indices [prod_list ?S])"
      using False by auto
    ultimately have "get (fst ?st2) im [int p, dot (strides ?S) [di, dj, c]] =
        get ?h im [int p, dot (strides ?S) [di, dj, c]]"
      by (rule rc'(2))
    then show ?thesis using IH(6)[OF pt i] by simp
  qed
  have fr: "buf (fst ?st2) k = buf h3 k" if "k < N" for k
    using rc'(5)[of k] that IH(5)[OF that] by (simp add: im_def)
  show ?case
    using rc'(3,4,6) IH(2,3,4) g fr cnt by simp
qed

lemma im2col_spec:
  fixes h :: "'a::zero heap"
  assumes x: "deref h x = Some xt" "shape (tensor xt) = [Hc, Wc, C]"
      "length (stride (tensor xt)) = 3" "data (tensor xt) < length (bufs h)"
    and k: "kernelShape L = (nf, kr, kc)" "0 \<le> kr" "0 \<le> kc" "0 \<le> C"
    and s: "subsample L = (s0, s1)" "0 < s0" "0 < s1"
    and fit: "kr \<le> Hc" "kc \<le> Wc"
    and out: "outputShape L = Some [oR, oC, oCh]" "oR = (Hc - kr) div s0 + 1" "oC = (Wc - kc) div s1 + 1"
  shows "\<exists>h'. im2col L h x = Inr (h', mk_ndarray (length (bufs h)) [oR * oC, kr * kc * C])
       \<and> objs h' = objs h \<and> length (bufs h') = length (bufs h) + 3
       \<and> (\<forall>k<length (bufs h). buf h' k = buf h k)
       \<and> int (length (buf h' (length (bufs h)))) = oR * oC * (kr * kc * C)
       \<and> (\<forall>a b di dj c. 0 \<le> a \<and> a < oR \<and> 0 \<le> b \<and> b < oC \<and> [di, dj, c] \<in> set (indices [kr, kc, C]) \<longrightarrow>
            get h' (mk_ndarray (length (bufs h)) [oR * oC, kr * kc * C])
              [a * oC + b, dot (strides [kr, kc, C]) [di, dj, c]]
              = get h (tensor xt) [a * s0 + di, b * s1 + dj, c])"
proof -
  let ?N = "length (bufs h)"
  let ?K = "kr * kc * C"
  let ?X = "tensor xt"
  let ?nr = "nat oR" and ?nc = "nat oC"
  have o0: "0 < oR" "0 < oC"
    using fit s(2,3) out(2,3) by (simp_all add: pos_imp_zdiv_nonneg_iff add_nonneg_pos)
  have on: "int ?nr = oR" "int ?nc = oC" using o0 by simp_all
  let ?h1 = "h\<lparr>bufs := bufs h @ [replicate (nat (oR * oC * ?K)) 0]\<rparr>"
  let ?h2 = "?h1\<lparr>bufs := bufs ?h1 @ [replicate (nat ?K) 0]\<rparr>"
  let ?h3 = "?h2\<lparr>bufs := bufs ?h2 @ [replicate (nat ?K) 0]\<rparr>"
  let ?im = "mk_ndarray ?N [oR * oC, ?K]"
  let ?patch = "mk_ndarray (?N + 1) [kr, kc, C]" and ?pr = "mk_ndarray (?N + 2) [?K]"
  have Kn: "0 \<le> ?K" "0 \<le> oR * oC * ?K" using k(2-4) o0 by simp_all
  have a1: "newTensor h [oR * oC, ?K] = Inr (?h1, ?im)"
    using Kn newTensor_ok[of "[oR * oC, ?K]" h] by simp
  have a2: "newTensor ?h1 [kr, kc, C] = Inr (?h2, ?patch)"
    using Kn newTensor_ok[of "[kr, kc, C]" ?h1] by (simp add: mult.assoc)
  have a3: "newTensor ?h2 [?K] = Inr (?h3, ?pr)"
    using Kn newTensor_ok[of "[?K]" ?h2] by simp
  let ?is = "map (\<lambda>k. int k * s0) [0..<?nr]" and ?js = "map (\<lambda>k. int k * s1) [0..<?nc]"
  let ?f = "\<lambda>s (i, j). im2col_step ?X ?im ?patch ?pr kr kc C i j s"
  let ?st = "foldl ?f (?h3, 0) (List.product ?is ?js)"
  let ?I = "\<lambda>st :: 'a heap \<times> int. 0 \<le> snd st"
  have shp: "shape ?im = [oR * oC, ?K]" "shape ?patch = [kr, kc, C]" "shape ?pr = [?K]" by simp_all
  note bs = im2col_body_step[OF x(2) shp(2) shp(1) shp(3) k(2,3)]
  have inner: "for_loop 0 (Wc - kc) s1 (im2col_body ?X ?im ?patch ?pr kr kc C i) st =
      Inr (foldl (\<lambda>s j. im2col_step ?X ?im ?patch ?pr kr kc C i j s) st ?js)
      \<and> ?I (foldl (\<lambda>s j. im2col_step ?X ?im ?patch ?pr kr kc C i j s) st ?js)"
    if "0 \<le> i" "?I st" for i st
  proof -
    have "for_loop 0 (Wc - kc) s1 (im2col_body ?X ?im ?patch ?pr kr kc C i) st =
        Inr (foldl (\<lambda>s j. im2col_step ?X ?im ?patch ?pr kr kc C i j s) st
               (map (\<lambda>k. 0 + int k * s1) [0..<nat ((Wc - kc - 0) div s1 + 1)]))
        \<and> ?I (foldl (\<lambda>s j. im2col_step ?X ?im ?patch ?pr kr kc C i j s) st
               (map (\<lambda>k. 0 + int k * s1) [0..<nat ((Wc - kc - 0) div s1 + 1)]))"
      by (rule for_loop_total[where I = ?I and f = "im2col_step ?X ?im ?patch ?pr kr kc C i", OF s(3) that(2)])
         (use bs[OF that(1)] in blast)
    then show ?thesis using out(3) by simp
  qed
  have outer: "for_loop 0 (Hc - kr) s0
      (\<lambda>i. for_loop 0 (Wc - kc) s1 (im2col_body ?X ?im ?patch ?pr kr kc C i)) (?h3, 0) = Inr ?st"
  proof -
    let ?g = "\<lambda>i st. foldl (\<lambda>s j. im2col_step ?X ?im ?patch ?pr kr kc C i j s) st ?js"
    have "for_loop 0 (Hc - kr) s0
        (\<lambda>i. for_loop 0 (Wc - kc) s1 (im2col_body ?X ?im ?patch ?pr kr kc C i)) (?h3, 0) =
        Inr (foldl (\<lambda>s i. ?g i s) (?h3, 0) (map (\<lambda>k. 0 + int k * s0) [0..<nat ((Hc - kr - 0) div s0 + 1)]))
        \<and> ?I (foldl (\<lambda>s i. ?g i s) (?h3, 0) (map (\<lambda>k. 0 + int k * s0) [0..<nat ((Hc - kr - 0) div s0 + 1)]))"
      by (rule for_loop_total[where I = ?I and f = ?g, OF s(2)]) (use inner in simp_all)
    then show ?thesis using out(2) by (simp add: foldl_product)
  qed
  have r: "im2col L h x = Inr (fst ?st, ?im)"
    using x(1,2) k(1) out(1) s(1) a1 a2 a3 outer
    by (simp add: im2col_def ebind_def Let_def split: prod.splits)
  have len1: "length (bufs ?h3) = ?N + 3" by simp
  have len2: "int (length (buf ?h3 ?N)) = prod_list [int ?nr * int ?nc, ?K]"
    unfolding on using Kn(2) by (simp add: buf_def nth_append)
  have len3: "int (length (buf ?h3 (?N + 1))) = prod_list [kr, kc, C]"
    using Kn(1) by (simp add: buf_def nth_append mult.assoc)
  note len = len1 len2 len3
  have tk: "take (?nr * ?nc) (List.product ?is ?js) = List.product ?is ?js"
    by simp
  have s0n: "0 \<le> s0" "0 \<le> s1" using s(2,3) by simp_all
  note loop = im2col_loop[OF k(2-4) s0n x(3,4) len order_refl, unfolded tk on]
  from loop have L1: "objs (fst ?st) = objs ?h3" and L2: "length (bufs (fst ?st)) = ?N + 3"
    and L3: "\<And>k. length (buf (fst ?st) k) = length (buf ?h3 k)"
    and L4: "\<And>k. k < ?N \<Longrightarrow> buf (fst ?st) k = buf ?h3 k"
    and L5: "\<And>p di dj c. p < ?nr * ?nc \<Longrightarrow> [di, dj, c] \<in> set (indices [kr, kc, C]) \<Longrightarrow>
         get (fst ?st) ?im [int p, dot (strides [kr, kc, C]) [di, dj, c]] =
         get ?h3 ?X [int (p div ?nc) * s0 + di, int (p mod ?nc) * s1 + dj, c]"
    by simp_all
  have old: "buf ?h3 k = buf h k" if "k < ?N" for k
    using that by (simp add: buf_def nth_append)
  have X3: "get ?h3 ?X js = get h ?X js" for js
    using old[OF x(4)] by (simp add: get_def)
  have c1: "objs (fst ?st) = objs h" using L1 by simp
  have c3: "\<forall>k<?N. buf (fst ?st) k = buf h k" using L4 old by simp
  have c4: "int (length (buf (fst ?st) ?N)) = oR * oC * ?K"
    using L3[of ?N] len(2) on by (simp add: mult.assoc)
  have c5: "get (fst ?st) ?im [a * oC + b, dot (strides [kr, kc, C]) [di, dj, c]]
              = get h ?X [a * s0 + di, b * s1 + dj, c]"
    if ab: "0 \<le> a" "a < oR" "0 \<le> b" "b < oC" and i: "[di, dj, c] \<in> set (indices [kr, kc, C])"
    for a b di dj c
  proof -
    let ?p = "nat a * ?nc + nat b"
    have pb: "nat b < ?nc" using ab by simp
    have "nat a < ?nr" using ab by simp
    then have "nat a * ?nc + ?nc \<le> ?nr * ?nc"
      by (metis Suc_leI mult_Suc mult_le_mono1 add.commute)
    then have pl: "?p < ?nr * ?nc" using pb by linarith
    have pd: "?p div ?nc = nat a" "?p mod ?nc = nat b" using pb by simp_all
    have pi: "int ?p = a * oC + b" using ab on by (simp add: nat_mult_distrib)
    show ?thesis
      using L5[OF pl i] ab unfolding pd pi X3 by simp
  qed
  show ?thesis
    using r c1 L2 c3 c4 c5 by blast
qed

subsection \<open>Matrix product\<close>

lemma in_indices2E:
  assumes "is \<in> set (indices [m, n])"
  obtains i j where "is = [i, j]" "0 \<le> i" "i < m" "0 \<le> j" "j < n"
  using assms by (auto simp: set_indices_Cons)

lemma gemm_spec:
  fixes h :: "'a::{plus,times} heap"
  assumes c: "view_ok h c" "shape c = [P, nf]"
    and a: "shape a = [Pa, K]" "data a \<noteq> data c"
    and b: "data b \<noteq> data c"
  shows "\<And>p f. 0 \<le> p \<Longrightarrow> p < P \<Longrightarrow> 0 \<le> f \<Longrightarrow> f < nf \<Longrightarrow>
           get (gemm_loop h c a b) c [p, f] =
             foldl (\<lambda>acc k. acc + get h a [p, k] * get h b [k, f]) (get h c [p, f]) (map int [0..<nat K])"
    and "objs (gemm_loop h c a b) = objs h" and "length (bufs (gemm_loop h c a b)) = length (bufs h)"
    and "\<And>k. k \<noteq> data c \<Longrightarrow> buf (gemm_loop h c a b) k = buf h k"
    and "\<And>k. length (buf (gemm_loop h c a b) k) = length (buf h k)"
proof -
  let ?d = "data c"
  let ?ks = "map int [0..<nat K]"
  define G where "G = (\<lambda>(h'::'a heap) v (is::int list).
      foldl (\<lambda>acc k. acc + get h' a [is ! 0, k] * get h' b [k, is ! 1]) v ?ks)"
  have rk: "length (stride c) = 2" and dl: "?d < length (bufs h)"
    using c by (simp_all add: view_ok_def)
  have "gemm_loop h c a b =
      foldl (\<lambda>h' ij. case ij of [i, j] \<Rightarrow> set_el h' c [i, j] (gemm_el h' c a b K i j) | _ \<Rightarrow> h')
        h (indices [P, nf])"
    using c(2) a(1) by (simp add: gemm_loop_def)
  also have "\<dots> = foldl (\<lambda>h' is. set_el h' c is (G h' (bread (buf h' ?d) (index c is)) is)) h (indices [P, nf])"
  proof (rule foldl_cong[OF refl refl])
    fix h' :: "'a heap" and ij assume "ij \<in> set (indices [P, nf])"
    then obtain i j where ij: "ij = [i, j]" by (rule in_indices2E)
    show "(case ij of [i, j] \<Rightarrow> set_el h' c [i, j] (gemm_el h' c a b K i j) | _ \<Rightarrow> h') =
          set_el h' c ij (G h' (bread (buf h' ?d) (index c ij)) ij)"
      using rk by (simp add: ij G_def gemm_el_def get_def cong: if_cong)
  qed
  also have "\<dots> = h\<lparr>bufs := (bufs h)[?d :=
              foldl (\<lambda>bf is. bwrite bf (index c is) (G h (bread bf (index c is)) is)) (buf h ?d)
                (indices [P, nf])]\<rparr>"
  proof (rule foldl_set_el[OF dl])
    show "\<forall>is\<in>set (indices [P, nf]). length is = length (stride c)"
      using rk by (auto dest: length_indices)
  next
    fix h' h'' :: "'a heap" assume "\<forall>k. k \<noteq> ?d \<longrightarrow> buf h' k = buf h'' k"
    then have "buf h' (data a) = buf h'' (data a)" "buf h' (data b) = buf h'' (data b)"
      using a(2) b by simp_all
    then show "G h' = G h''"
      by (simp add: G_def get_def cong: if_cong)
  qed
  finally have eq: "gemm_loop h c a b = h\<lparr>bufs := (bufs h)[?d :=
              foldl (\<lambda>bf is. bwrite bf (index c is) (G h (bread bf (index c is)) is)) (buf h ?d)
                (indices [P, nf])]\<rparr>" .
  show "objs (gemm_loop h c a b) = objs h" "length (bufs (gemm_loop h c a b)) = length (bufs h)"
    by (simp_all add: eq)
  show "buf (gemm_loop h c a b) k = buf h k" if "k \<noteq> ?d" for k
    using that by (simp add: eq buf_update_other)
  show "length (buf (gemm_loop h c a b) k) = length (buf h k)" for k
    using dl by (cases "k = ?d") (simp_all add: eq buf_update_same buf_update_other)
  show "get (gemm_loop h c a b) c [p, f] =
        foldl (\<lambda>acc k. acc + get h a [p, k] * get h b [k, f]) (get h c [p, f]) ?ks"
    if pf: "0 \<le> p" "p < P" "0 \<le> f" "f < nf" for p f
  proof -
    have i: "[p, f] \<in> set (indices [P, nf])" using pf by simp
    have d: "distinct (map (index c) (indices [P, nf]))"
      using c by (simp add: view_ok_def distinct_map distinct_indices)
    have r: "0 \<le> index c [p, f]" "index c [p, f] < int (length (buf h ?d))"
      using c i by (auto simp: view_ok_def)
    have "bread (buf (gemm_loop h c a b) ?d) (index c [p, f]) = G h (bread (buf h ?d) (index c [p, f])) [p, f]"
      using bread_foldl_bwrite_acc[OF d i r, of "G h"] dl by (simp add: eq buf_update_same)
    then show ?thesis
      using rk by (simp add: get_def G_def cong: if_cong)
  qed
qed

subsection \<open>Filling with a scalar\<close>

lemma set_el_zero:
  fixes h :: "'a::zero heap"
  assumes "buf h (data a) = replicate n 0"
  shows "set_el h a is 0 = h"
proof -
  have b: "bwrite (replicate n (0::'a f32)) p 0 = replicate n 0" for p
    by (auto simp: bwrite_def list_eq_iff_nth_eq nth_list_update)
  have "(bufs h)[data a := replicate n 0] = bufs h"
    using assms by (cases "data a < length (bufs h)") (simp_all add: buf_def list_update_same_conv list_update_beyond)
  then show ?thesis
    using assms by (simp add: set_el_def b)
qed

lemma assigns_zero:
  fixes h :: "'a::zero heap"
  assumes "buf h (data a) = replicate n 0"
  shows "assigns h a 0 = h"
proof -
  have "foldl (\<lambda>h' is. set_el h' a is 0) h xs = h" for xs
    by (induction xs) (simp_all add: set_el_zero[OF assms])
  then show ?thesis by (simp add: assigns_def)
qed

lemma get_pick2:
  assumes "length (stride a) = 2" and "0 \<le> n"
  shows "get h (pick a [None, Some n]) [k] = get h a [k, n]"
proof -
  obtain s0 s1 where s: "stride a = [s0, s1]"
    using assms(1) by (auto simp: length_Suc_conv numeral_eq_Suc)
  show ?thesis
    using assms(2) by (simp add: get_def index_def pick_def s algebra_simps)
qed

lemma get_cong_buf: "buf h' (data a) = buf h (data a) \<Longrightarrow> get h' a is = get h a is"
  by (simp add: get_def)

lemma assigns_read:
  assumes "view_ok h dst" and "is \<in> set (indices (shape dst))"
  shows "bread (buf (assigns h dst v) (data dst)) (index dst is) = v"
proof -
  have d: "distinct (map (index dst) (indices (shape dst)))"
    using assms(1) by (simp add: view_ok_def distinct_map distinct_indices)
  have r: "0 \<le> index dst is" "index dst is < int (length (buf h (data dst)))"
    using assms by (auto simp: view_ok_def)
  show ?thesis
    using assms(1) bread_foldl_bwrite_const[OF d assms(2) r, of "\<lambda>is. v"]
    by (simp add: assigns_eq view_ok_def buf_update_same)
qed

lemma assigns_read_out:
  assumes "view_ok h dst" and "p \<notin> index dst ` set (indices (shape dst))"
  shows "bread (buf (assigns h dst v) (data dst)) p = bread (buf h (data dst)) p"
  using assms by (simp add: assigns_eq view_ok_def buf_update_same bread_foldl_bwrite_out)

lemma assigns_frame:
  assumes "view_ok h dst"
  shows "objs (assigns h dst v) = objs h" and "length (bufs (assigns h dst v)) = length (bufs h)"
    and "k \<noteq> data dst \<Longrightarrow> buf (assigns h dst v) k = buf h k"
    and "length (buf (assigns h dst v) k) = length (buf h k)"
  using assms by (auto simp: assigns_eq view_ok_def buf_def nth_list_update)

lemma assigns_sub_in:
  assumes "view_ok h parent" and "data sub = data parent"
    and "length (shape sub) = length (stride sub)"
    and "inj_on emb (set (indices (shape sub)))"
    and "\<forall>is\<in>set (indices (shape sub)).
           emb is \<in> set (indices (shape parent)) \<and> index sub is = index parent (emb is)"
    and "is \<in> set (indices (shape sub))"
  shows "get (assigns h sub v) parent (emb is) = v"
proof -
  have v: "view_ok h sub" by (rule view_ok_sub[OF assms(1-5)])
  have e: "emb is \<in> set (indices (shape parent))" "index sub is = index parent (emb is)"
    using assms(5,6) by simp_all
  have l: "length (emb is) = length (stride parent)"
    using e(1) assms(1) by (simp add: length_indices view_ok_def)
  show ?thesis
    using assigns_read[OF v assms(6), of v] assms(2) e(2)
    by (simp add: get_index[OF l])
qed

lemma assigns_sub_out:
  assumes "view_ok h parent" and "data sub = data parent"
    and "length (shape sub) = length (stride sub)"
    and "inj_on emb (set (indices (shape sub)))"
    and "\<forall>is\<in>set (indices (shape sub)).
           emb is \<in> set (indices (shape parent)) \<and> index sub is = index parent (emb is)"
    and "js \<in> set (indices (shape parent))"
    and "js \<notin> emb ` set (indices (shape sub))"
  shows "get (assigns h sub v) parent js = get h parent js"
proof -
  have v: "view_ok h sub" by (rule view_ok_sub[OF assms(1-5)])
  have l: "length js = length (stride parent)"
    using assms(1,6) by (simp add: length_indices view_ok_def)
  have "index parent js \<notin> index sub ` set (indices (shape sub))"
  proof
    assume "index parent js \<in> index sub ` set (indices (shape sub))"
    then obtain "is" where i: "is \<in> set (indices (shape sub))" and e: "index parent js = index sub is"
      by auto
    then have "index parent js = index parent (emb is)" and "emb is \<in> set (indices (shape parent))"
      using assms(5) by simp_all
    then have "js = emb is" using assms(1,6) by (auto simp: view_ok_def dest: inj_onD)
    then show False using assms(7) i by auto
  qed
  then show ?thesis
    using assigns_read_out[OF v, of "index parent js" v] assms(2)
    by (simp add: get_index[OF l])
qed

lemma bias_loop:
  fixes h :: "'a heap"
  assumes dims: "0 \<le> P" "0 \<le> nf"
    and mm: "Nm < length (bufs h)" "int (length (buf h Nm)) = prod_list [P, nf]"
    and B: "data B \<noteq> Nm"
    and m: "int m \<le> nf"
  defines "mm \<equiv> mk_ndarray Nm [P, nf]"
  defines "hm \<equiv> foldl (\<lambda>h' n. assigns h' (pick mm [None, Some n]) (get h' B [n])) h (map int [0..<m])"
  shows "objs hm = objs h \<and> length (bufs hm) = length (bufs h)
       \<and> (\<forall>k. length (buf hm k) = length (buf h k))
       \<and> (\<forall>k. k \<noteq> Nm \<longrightarrow> buf hm k = buf h k)
       \<and> (\<forall>p f. 0 \<le> p \<and> p < P \<and> 0 \<le> f \<and> f < int m \<longrightarrow> get hm mm [p, f] = get h B [f])"
  using m unfolding hm_def
proof (induction m)
  case 0
  then show ?case by auto
next
  case (Suc m)
  let ?h = "foldl (\<lambda>h' n. assigns h' (pick mm [None, Some n]) (get h' B [n])) h (map int [0..<m])"
  let ?n = "int m"
  let ?sub = "pick mm [None, Some ?n]"
  let ?emb = "\<lambda>is. is @ [?n]"
  let ?h2 = "assigns ?h ?sub (get ?h B [?n])"
  have IH: "objs ?h = objs h" "length (bufs ?h) = length (bufs h)"
    "\<And>k. length (buf ?h k) = length (buf h k)"
    "\<And>k. k \<noteq> Nm \<Longrightarrow> buf ?h k = buf h k"
    "\<And>p f. 0 \<le> p \<Longrightarrow> p < P \<Longrightarrow> 0 \<le> f \<Longrightarrow> f < ?n \<Longrightarrow> get ?h mm [p, f] = get h B [f]"
    using Suc by simp_all
  have nF: "?n < nf" using Suc.prems by simp
  have step: "foldl (\<lambda>h' n. assigns h' (pick mm [None, Some n]) (get h' B [n])) h (map int [0..<Suc m]) = ?h2"
    by simp
  have vmm: "view_ok ?h mm"
    using dims mm IH(2) IH(3)[of Nm] unfolding mm_def by (intro view_ok_fresh) simp_all
  have offs: "offset mm = 0" using dims unfolding mm_def by (intro offset_mk_ndarray) simp
  have sub: "data ?sub = data mm" "length (shape ?sub) = length (stride ?sub)"
    "inj_on ?emb (set (indices (shape ?sub)))"
    by (simp_all add: mm_def pick_def inj_on_def)
  have embp: "\<forall>is\<in>set (indices (shape ?sub)).
         ?emb is \<in> set (indices (shape mm)) \<and> index ?sub is = index mm (?emb is)"
    using nF offs by (simp add: ball_indices_Cons mm_def index_def pick_def)
  have vB: "get ?h B [?n] = get h B [?n]"
    by (rule get_cong_buf) (rule IH(4)[OF B])
  have vs: "view_ok ?h ?sub" by (rule view_ok_sub[OF vmm sub embp])
  note fr = assigns_frame[OF vs, where v = "get ?h B [?n]"]
  have g: "get ?h2 mm [p, f] = get h B [f]"
    if pf: "0 \<le> p" "p < P" "0 \<le> f" "f < int (Suc m)" for p f
  proof (cases "f = ?n")
    case True
    have "[p] \<in> set (indices (shape ?sub))" using pf by (simp add: mm_def pick_def)
    from assigns_sub_in[OF vmm sub embp this, where v = "get ?h B [?n]"]
    show ?thesis using True vB by simp
  next
    case False
    then have fm: "f < ?n" using pf by simp
    have "[p, f] \<in> set (indices (shape mm))" using pf fm nF by (simp add: mm_def)
    moreover have "[p, f] \<notin> ?emb ` set (indices (shape ?sub))" using False by auto
    ultimately have "get ?h2 mm [p, f] = get ?h mm [p, f]"
      by (rule assigns_sub_out[OF vmm sub embp])
    then show ?thesis using IH(5)[OF pf(1-3) fm] by simp
  qed
  have o: "buf ?h2 k = buf h k" if "k \<noteq> Nm" for k
    using fr(3)[of k] that IH(4)[OF that] by (simp add: mm_def pick_def)
  show ?case
    unfolding step using fr(1,2,4) IH(1,2,3) g o by simp
qed

lemma output_body_copy:
  assumes "shape mm = [P, nf]" and "shape out = [oR, oC, nf]" and "shape ocr = [P]"
    and "shape oc = [oR, oC]" and "0 \<le> n"
  shows "output_body mm out ocr oc n h = Inr (output_copy mm out ocr oc h n)"
  using assms
  by (simp add: output_body_def output_copy_def assign_def ebind_def pick_def replaceTensorData_def Let_def)

lemma output_loop:
  fixes h8 :: "'a heap"
  assumes dims: "0 \<le> oR" "0 \<le> oC" "0 \<le> nf"
    and M: "length (stride mm) = 2" "data mm < No"
    and len: "length (bufs h8) = No + 3"
      "int (length (buf h8 No)) = prod_list [oR, oC, nf]"
      "int (length (buf h8 (No + 1))) = prod_list [oR, oC]"
    and m: "int m \<le> nf"
  defines "out \<equiv> mk_ndarray No [oR, oC, nf]"
  defines "hm \<equiv> foldl (output_copy mm out (mk_ndarray (No + 1) [oR * oC]) (mk_ndarray (No + 2) [oR, oC])) h8
                   (map int [0..<m])"
  shows "objs hm = objs h8 \<and> length (bufs hm) = No + 3
       \<and> (\<forall>k. length (buf hm k) = length (buf h8 k))
       \<and> (\<forall>k<No. buf hm k = buf h8 k)
       \<and> (\<forall>a b f. [a, b] \<in> set (indices [oR, oC]) \<and> 0 \<le> f \<and> f < int m \<longrightarrow>
            get hm out [a, b, f] = get h8 mm [dot (strides [oR, oC]) [a, b], f])"
  using m unfolding hm_def
proof (induction m)
  case 0
  then show ?case using len by auto
next
  case (Suc m)
  let ?S = "[oR, oC]"
  let ?body = "output_copy mm out (mk_ndarray (No + 1) [oR * oC]) (mk_ndarray (No + 2) ?S)"
  let ?h = "foldl ?body h8 (map int [0..<m])"
  let ?n = "int m"
  let ?src = "pick mm [None, Some ?n]"
  let ?sub = "pick out [None, None, Some ?n]"
  let ?emb = "\<lambda>is. is @ [?n]"
  have IH: "objs ?h = objs h8" "length (bufs ?h) = No + 3" "\<And>k. length (buf ?h k) = length (buf h8 k)"
    "\<And>k. k < No \<Longrightarrow> buf ?h k = buf h8 k"
    "\<And>a b f. [a, b] \<in> set (indices ?S) \<Longrightarrow> 0 \<le> f \<Longrightarrow> f < ?n \<Longrightarrow>
       get ?h out [a, b, f] = get h8 mm [dot (strides ?S) [a, b], f]"
    using Suc by simp_all
  have nF: "?n < nf" using Suc.prems by simp
  have S: "\<forall>n\<in>set ?S. 0 \<le> n" using dims by simp
  have vout: "view_ok ?h out"
    using dims len IH(2) IH(3)[of No] unfolding out_def by (intro view_ok_fresh) simp_all
  let ?h2 = "foldl ?body h8 (map int [0..<Suc m])"
  have step: "?h2 =
      assign_loop (assign_loop ?h (mk_ndarray (No + 1) [prod_list ?S]) ?src) ?sub
        (replaceTensorData (mk_ndarray (No + 2) ?S) (No + 1))"
    by (simp add: output_copy_def Let_def)
  have offs: "offset out = 0" using dims unfolding out_def by (intro offset_mk_ndarray) simp
  have embp: "\<forall>is\<in>set (indices ?S).
         ?emb is \<in> set (indices (shape out)) \<and> index ?sub is = index out (?emb is)"
    using nF offs
    by (simp add: ball_indices_Cons out_def index_def pick_def algebra_simps)
  note rc = unravel_copy[where h = ?h and S = ?S and dr = "No + 1" and parent = out and src = ?src
      and sub = ?sub and emb = ?emb and dc = "No + 2", OF S _ _ vout _ _ _ _ _ _ _ embp, folded step]
  have pre: "No + 1 < length (bufs ?h)" "int (length (buf ?h (No + 1))) = prod_list ?S"
    "data out \<noteq> No + 1" "data ?src \<noteq> No + 1" "data ?src \<noteq> data out" "data ?sub = data out"
    "shape ?sub = ?S" "length (stride ?sub) = length ?S" "inj_on ?emb (set (indices ?S))"
    using IH(2) IH(3)[of "No + 1"] len M(2)
    by (simp_all add: out_def pick_def inj_on_def)
  note rc' = rc[OF pre]
  have g: "get ?h2 out [a, b, f] = get h8 mm [dot (strides ?S) [a, b], f]"
    if i: "[a, b] \<in> set (indices ?S)" and f: "0 \<le> f" "f < int (Suc m)" for a b f
  proof (cases "f = ?n")
    case True
    have "get ?h2 out ([a, b] @ [?n]) = get ?h ?src [dot (strides ?S) [a, b]]"
      by (rule rc'(1)[OF i])
    also have "\<dots> = get ?h mm [dot (strides ?S) [a, b], ?n]"
      using M(1) by (intro get_pick2) simp_all
    also have "\<dots> = get h8 mm [dot (strides ?S) [a, b], ?n]"
      by (rule get_cong_buf) (rule IH(4)[OF M(2)])
    finally show ?thesis using True by simp
  next
    case False
    then have fm: "f < ?n" using f by simp
    have "[a, b, f] \<in> set (indices (shape out))"
      using i f fm nF by (simp add: out_def)
    moreover have "[a, b, f] \<notin> ?emb ` set (indices ?S)"
      using False by auto
    ultimately have "get ?h2 out [a, b, f] = get ?h out [a, b, f]"
      by (rule rc'(2))
    then show ?thesis using IH(5)[OF i f(1) fm] by simp
  qed
  have fr: "buf ?h2 k = buf h8 k" if "k < No" for k
    using rc'(5)[of k] that IH(4)[OF that] by (simp add: out_def)
  show ?case
    using rc'(3,4,6) IH(1,2,3) g fr by simp
qed

subsection \<open>Padding\<close>

lemma bufs_set_tensor [simp]: "bufs (set_tensor h x a) = bufs h"
  by (simp add: set_tensor_def)

lemma buf_set_tensor [simp]: "buf (set_tensor h x a) k = buf h k"
  by (simp add: set_tensor_def buf_def)

lemma get_set_tensor [simp]: "get (set_tensor h x a) b is = get h b is"
  by (simp add: get_def)

lemma objs_set_tensor: "objs (set_tensor h x a) = (objs h)[x := (objs h ! x)\<lparr>tensor := a\<rparr>]"
  by (simp add: set_tensor_def)

lemma bread_replicate_zero: "0 \<le> p \<Longrightarrow> p < int n \<Longrightarrow> bread (replicate n 0) p = 0"
  by (simp add: bread_def)

lemma padInput_same:
  fixes h :: "'a::zero heap"
  assumes bm: "borderMode L = ''same''"
    and x: "deref h x = Some xt" "shape (tensor xt) = [H, W, C]" "data (tensor xt) < length (bufs h)"
    and dims: "0 \<le> H" "0 \<le> W" "0 \<le> C"
    and pad: "inputPadding L = Some (pt, pb, pl, pr)" "0 \<le> pt" "0 \<le> pb" "0 \<le> pl" "0 \<le> pr"
  defines "x' \<equiv> mk_ndarray (length (bufs h)) [H + pt + pb, W + pl + pr, C]"
  shows "\<exists>h'. padInput L h x = Inr (h', x)
       \<and> objs h' = (objs h)[x := xt\<lparr>tensor := x'\<rparr>]
       \<and> length (bufs h') = length (bufs h) + 1
       \<and> (\<forall>k<length (bufs h). buf h' k = buf h k)
       \<and> (\<forall>i j c. 0 \<le> i \<and> i < H + pt + pb \<and> 0 \<le> j \<and> j < W + pl + pr \<and> 0 \<le> c \<and> c < C \<longrightarrow>
            get h' x' [i, j, c] =
              (if pt \<le> i \<and> i < pt + H \<and> pl \<le> j \<and> j < pl + W
               then get h (tensor xt) [i - pt, j - pl, c] else 0))"
proof -
  let ?N = "length (bufs h)"
  let ?S = "[H + pt + pb, W + pl + pr, C]"
  let ?h1 = "h\<lparr>bufs := bufs h @ [replicate (nat (prod_list ?S)) 0]\<rparr>"
  let ?sub = "lo (hi x' [H + pt, W + pl, C]) [pt, pl, 0]"
  let ?emb = "\<lambda>is. [is ! 0 + pt, is ! 1 + pl, is ! 2]"
  let ?h2 = "assign_loop ?h1 ?sub (tensor xt)"
  have Sn: "\<forall>n\<in>set ?S. 0 \<le> n" using dims pad by simp
  have Pn: "0 \<le> prod_list ?S" using Sn by (intro prod_list_nonneg) auto
  have a1: "newTensor h ?S = Inr (?h1, x')"
    using Pn newTensor_ok[of ?S h] by (simp add: x'_def)
  have xr: "objs h ! x = xt" "x < length (objs h)"
    using x(1) by (auto simp: deref_def split: if_splits)
  have shs0: "shape ?sub = shape (tensor xt)"
    using dims pad x(2) by (simp add: x'_def lo_def hi_def)
  have r: "padInput L h x = Inr (set_tensor ?h2 x x', x)"
    using bm x(1,2) pad(1) a1 by (simp add: padInput_def Let_def assign_def ebind_def shs0 del: bufs_set_tensor)
  have vx: "view_ok ?h1 x'"
    unfolding x'_def using Sn Pn by (intro view_ok_fresh) (simp_all add: buf_def)
  have offs: "offset x' = 0" unfolding x'_def using Sn by (rule offset_mk_ndarray)
  have sub: "data ?sub = data x'" "length (shape ?sub) = length (stride ?sub)"
    and shs: "shape ?sub = [H, W, C]"
    using dims pad by (simp_all add: x'_def lo_def hi_def)
  have inj: "inj_on ?emb (set (indices (shape ?sub)))"
    unfolding shs by (rule inj_onI) (auto simp: set_indices_Cons)
  have embp: "\<forall>is\<in>set (indices (shape ?sub)).
         ?emb is \<in> set (indices (shape x')) \<and> index ?sub is = index x' (?emb is)"
    unfolding shs using dims pad offs
    by (simp add: ball_indices_Cons x'_def index_def lo_def hi_def algebra_simps)
  have src: "data (tensor xt) \<noteq> data x'" using x(3) by (simp add: x'_def)
  have vs: "view_ok ?h1 ?sub" by (rule view_ok_sub[OF vx sub inj embp])
  have src': "data (tensor xt) \<noteq> data ?sub" using src sub(1) by simp
  note fr = assign_frame[OF vs src']
  have old1: "buf ?h1 k = buf h k" if "k < ?N" for k
    using that by (simp add: buf_def nth_append)
  have X1: "get ?h1 (tensor xt) js = get h (tensor xt) js" for js
    by (rule get_cong_buf) (rule old1[OF x(3)])
  have g: "get (set_tensor ?h2 x x') x' [i, j, c] =
        (if pt \<le> i \<and> i < pt + H \<and> pl \<le> j \<and> j < pl + W
         then get h (tensor xt) [i - pt, j - pl, c] else 0)"
    if r: "0 \<le> i" "i < H + pt + pb" "0 \<le> j" "j < W + pl + pr" "0 \<le> c" "c < C" for i j c
  proof (cases "pt \<le> i \<and> i < pt + H \<and> pl \<le> j \<and> j < pl + W")
    case True
    then have m: "[i - pt, j - pl, c] \<in> set (indices (shape ?sub))"
      unfolding shs using r by simp
    have "get ?h2 x' (?emb [i - pt, j - pl, c]) = get ?h1 (tensor xt) [i - pt, j - pl, c]"
      by (rule assign_sub_in[OF vx sub inj embp src m])
    then show ?thesis using True X1 by simp
  next
    case False
    have m: "[i, j, c] \<in> set (indices (shape x'))" using r by (simp add: x'_def)
    have n: "[i, j, c] \<notin> ?emb ` set (indices (shape ?sub))"
      unfolding shs using False by (auto simp: set_indices_Cons)
    have "get ?h2 x' [i, j, c] = get ?h1 x' [i, j, c]"
      by (rule assign_sub_out[OF vx sub inj embp src m n])
    also have "\<dots> = 0"
    proof -
      have "0 \<le> index x' [i, j, c]" "index x' [i, j, c] < prod_list ?S"
        using strides_range[of "[i, j, c]" ?S] r Sn unfolding x'_def
        by (simp_all add: index_mk_ndarray)
      then show ?thesis
        using Pn by (simp add: get_def x'_def buf_def bread_replicate_zero)
    qed
    finally show ?thesis using False by auto
  qed
  have c1: "objs (set_tensor ?h2 x x') = (objs h)[x := xt\<lparr>tensor := x'\<rparr>]"
    using fr(1) xr by (simp add: objs_set_tensor)
  have c2: "length (bufs (set_tensor ?h2 x x')) = ?N + 1"
    using fr(2) by simp
  have c3: "\<forall>k<?N. buf (set_tensor ?h2 x x') k = buf h k"
  proof (intro allI impI)
    fix k assume k: "k < ?N"
    then have "k \<noteq> data ?sub" unfolding sub(1) by (simp add: x'_def)
    then have "buf ?h2 k = buf ?h1 k" by (rule fr(3))
    then show "buf (set_tensor ?h2 x x') k = buf h k"
      using old1[OF k] by simp
  qed
  show ?thesis
    using r c1 c2 c3 g by blast
qed

subsection \<open>Row-major enumeration\<close>

lemma concat_blocks: "concat (map (\<lambda>i. map (\<lambda>r. p * i + r) [0..<p]) [0..<n]) = [0..<n * p]"
proof (induction n)
  case 0
  then show ?case by simp
next
  case (Suc n)
  have b: "map (\<lambda>r. p * n + r) [0..<p] = [n * p..<n * p + p]"
    by (simp add: map_add_upt mult.commute add.commute)
  have a: "[0..<Suc n * p] = [0..<n * p] @ [n * p..<n * p + p]"
    using upt_add_eq_append[of 0 "n * p" p] by (simp add: add.commute)
  have "concat (map (\<lambda>i. map (\<lambda>r. p * i + r) [0..<p]) [0..<Suc n]) =
        concat (map (\<lambda>i. map (\<lambda>r. p * i + r) [0..<p]) [0..<n]) @ map (\<lambda>r. p * n + r) [0..<p]"
    by simp
  also have "\<dots> = [0..<n * p] @ [n * p..<n * p + p]"
    unfolding Suc b ..
  finally show ?case using a by simp
qed

lemma map_dot_indices:
  assumes "\<forall>n\<in>set S. 0 \<le> n"
  shows "map (dot (strides S)) (indices S) = map int [0..<nat (prod_list S)]"
  using assms
proof (induction S)
  case Nil
  then show ?case by simp
next
  case (Cons n ns)
  let ?P = "prod_list ns"
  have Pn: "0 \<le> ?P" using Cons.prems by (intro prod_list_nonneg) auto
  have n0: "0 \<le> n" using Cons.prems by simp
  have IH: "map (dot (strides ns)) (indices ns) = map int [0..<nat ?P]"
    using Cons by simp
  have "map (dot (strides (n # ns))) (indices (n # ns)) =
        concat (map (\<lambda>i. map (\<lambda>is. ?P * i + dot (strides ns) is) (indices ns)) (map int [0..<nat n]))"
    by (simp add: indices.simps(2) map_concat comp_def)
  also have "\<dots> = concat (map (\<lambda>i. map (\<lambda>r. ?P * i + r) (map (dot (strides ns)) (indices ns))) (map int [0..<nat n]))"
    by (simp add: comp_def)
  also have "\<dots> = concat (map (\<lambda>i. map (\<lambda>r. ?P * int i + int r) [0..<nat ?P]) [0..<nat n])"
    unfolding IH by (simp add: comp_def)
  also have "\<dots> = map int (concat (map (\<lambda>i. map (\<lambda>r. nat ?P * i + r) [0..<nat ?P]) [0..<nat n]))"
    using Pn by (simp add: map_concat comp_def)
  also have "\<dots> = map int [0..<nat n * nat ?P]"
    by (simp only: concat_blocks)
  also have "nat n * nat ?P = nat (prod_list (n # ns))"
    using n0 Pn by (simp add: nat_mult_distrib)
  finally show ?case .
qed

lemma foldl_over_indices:
  assumes "\<forall>n\<in>set S. 0 \<le> n"
  shows "foldl (\<lambda>acc k. g acc k) z (map int [0..<nat (prod_list S)]) =
         foldl (\<lambda>acc is. g acc (dot (strides S) is)) z (indices S)"
  unfolding map_dot_indices[OF assms, symmetric] by (simp add: foldl_map)

subsection \<open>Loop counts\<close>

lemma valid_count:
  assumes "0 < (s::int)" and "k \<le> H"
  shows "(H - k + s) div s = (H - k) div s + 1" and "0 < (H - k + s) div s"
    and "((H - k + s) div s - 1) * s \<le> H - k"
proof -
  show e: "(H - k + s) div s = (H - k) div s + 1"
    using assms(1) div_add_self2[of s "H - k"] by simp
  have "0 \<le> (H - k) div s" using assms by (simp add: pos_imp_zdiv_nonneg_iff)
  then show "0 < (H - k + s) div s" using e by simp
  have "(H - k) div s * s \<le> H - k"
    using assms(1) by (metis mult.commute mult_div_mod_eq pos_mod_sign le_add_same_cancel1)
  then show "((H - k + s) div s - 1) * s \<le> H - k" using e by simp
qed

lemma same_count:
  assumes s: "0 < (s::int)" and H: "0 < H" and k: "0 < k"
  defines "o1 \<equiv> (H + s - 1) div s"
  defines "p \<equiv> max 0 ((o1 - 1) * s + k - H)"
  shows "0 < o1" and "k \<le> H + p" and "(H + p - k) div s + 1 = o1"
    and "0 \<le> p div 2" and "0 \<le> p - p div 2"
proof -
  have e: "o1 = (H - 1) div s + 1"
    unfolding o1_def using s div_add_self2[of s "H - 1"] by (simp add: algebra_simps)
  have q: "0 \<le> (H - 1) div s" using s H by (simp add: pos_imp_zdiv_nonneg_iff)
  show o: "0 < o1" using e q by simp
  have lo: "(H - 1) div s * s \<le> H - 1"
    using s by (metis mult.commute mult_div_mod_eq pos_mod_sign le_add_same_cancel1)
  have p0: "0 \<le> p" by (simp add: p_def)
  show "0 \<le> p div 2" "0 \<le> p - p div 2" using p0 by presburger+
  show "k \<le> H + p" and "(H + p - k) div s + 1 = o1"
  proof -
    consider (pos) "0 \<le> (o1 - 1) * s + k - H" | (neg) "(o1 - 1) * s + k - H < 0" by linarith
    then have "k \<le> H + p \<and> (H + p - k) div s + 1 = o1"
    proof cases
      case pos
      then have pe: "p = (o1 - 1) * s + k - H" by (simp add: p_def)
      have "H + p - k = (o1 - 1) * s" using pe by simp
      moreover have "0 \<le> (o1 - 1) * s" using o s by simp
      ultimately show ?thesis using s pe by simp
    next
      case neg
      then have pe: "p = 0" by (simp add: p_def)
      have a: "(o1 - 1) * s \<le> H - k" using neg by simp
      have "((o1 - 1) * s) div s \<le> (H - k) div s"
        using a s by (intro zdiv_mono1) simp_all
      then have "(o1 - 1) \<le> (H - k) div s"
        using s by simp
      moreover have "(H - k) div s \<le> (H - 1) div s"
        using k s by (intro zdiv_mono1) simp_all
      ultimately have d: "(H - k) div s = o1 - 1" using e by simp
      have "0 \<le> (o1 - 1) * s" using o s by simp
      then have "k \<le> H" using a by linarith
      then show ?thesis using pe d by simp
    qed
    then show "k \<le> H + p" and "(H + p - k) div s + 1 = o1" by simp_all
  qed
qed

lemma window_in_range:
  assumes "0 < (s::int)" and "0 \<le> a" and "a < (Hc - k) div s + 1" and "0 \<le> d" and "d < k"
  shows "0 \<le> a * s + d" and "a * s + d < Hc"
proof -
  show "0 \<le> a * s + d" using assms by simp
  have "a \<le> (Hc - k) div s" using assms(3) by simp
  then have "a * s \<le> (Hc - k) div s * s" using assms(1) by (intro mult_right_mono) simp_all
  moreover have "(Hc - k) div s * s \<le> Hc - k"
    using assms(1) by (metis mult.commute mult_div_mod_eq pos_mod_sign le_add_same_cancel1)
  ultimately show "a * s + d < Hc" using assms(5) by linarith
qed

lemma pad_stage:
  fixes h :: "'a::zero heap"
  assumes k: "kernelShape L = (nf, kr, kc)" "0 < kr" "0 < kc"
    and s: "subsample L = (s0, s1)" "0 < s0" "0 < s1"
    and bm: "borderMode L = ''valid'' \<or> borderMode L = ''same''"
    and x: "deref h x = Some xt" "shape (tensor xt) = [H, W, C]" "length (stride (tensor xt)) = 3"
      "data (tensor xt) < length (bufs h)" "0 < H" "0 < W" "0 < C"
    and fit: "borderMode L = ''valid'' \<longrightarrow> kr \<le> H \<and> kc \<le> W"
  shows "\<exists>L1 oR oC pt pb pl pr h1 Xc Hc Wc.
       calcOutputShape L (tensor xt) = Inr L1
     \<and> L1 = L\<lparr>outputShape := Some [oR, oC, nf], inputPadding := Some (pt, pb, pl, pr)\<rparr>
     \<and> padInput L1 h x = Inr (h1, x)
     \<and> objs h1 = (objs h)[x := xt\<lparr>tensor := Xc\<rparr>]
     \<and> length (bufs h) \<le> length (bufs h1) \<and> (\<forall>k<length (bufs h). buf h1 k = buf h k)
     \<and> shape Xc = [Hc, Wc, C] \<and> length (stride Xc) = 3 \<and> data Xc < length (bufs h1)
     \<and> kr \<le> Hc \<and> kc \<le> Wc \<and> oR = (Hc - kr) div s0 + 1 \<and> oC = (Wc - kc) div s1 + 1
     \<and> 0 < oR \<and> 0 < oC
     \<and> (\<forall>i j c. 0 \<le> i \<and> i < Hc \<and> 0 \<le> j \<and> j < Wc \<and> 0 \<le> c \<and> c < C \<longrightarrow>
           get h1 Xc [i, j, c] = padded_input h (tensor xt) pt pl [i, j, c])"
proof -
  have nz: "s0 \<noteq> 0" "s1 \<noteq> 0" using s by simp_all
  have xr: "objs h ! x = xt" "x < length (objs h)"
    using x(1) by (auto simp: deref_def split: if_splits)
  from bm show ?thesis
  proof
    assume v: "borderMode L = ''valid''"
    let ?oR = "(H - kr + s0) div s0" and ?oC = "(W - kc + s1) div s1"
    let ?L1 = "L\<lparr>outputShape := Some [?oR, ?oC, nf], inputPadding := Some (0, 0, 0, 0)\<rparr>"
    have c: "calcOutputShape L (tensor xt) = Inr ?L1"
      using v nz k(1) s(1) x(2) by (simp add: calcOutputShape_def Let_def del: div_add_self2)
    have p: "padInput ?L1 h x = Inr (h, x)"
      using v by (simp add: padInput_def)
    have f: "kr \<le> H" "kc \<le> W" using fit v by simp_all
    note vr = valid_count[OF s(2) f(1)] and vc = valid_count[OF s(3) f(2)]
    have o: "objs h = (objs h)[x := xt\<lparr>tensor := tensor xt\<rparr>]"
      using xr list_update_id[of "objs h" x] by simp
    have rd: "\<forall>i j c. 0 \<le> i \<and> i < H \<and> 0 \<le> j \<and> j < W \<and> 0 \<le> c \<and> c < C \<longrightarrow>
           get h (tensor xt) [i, j, c] = padded_input h (tensor xt) 0 0 [i, j, c]"
      using x(2) by (simp add: padded_input_def)
    show ?thesis
    proof (intro exI conjI)
      show "calcOutputShape L (tensor xt) = Inr ?L1" by (rule c)
      show "?L1 = L\<lparr>outputShape := Some [?oR, ?oC, nf], inputPadding := Some (0, 0, 0, 0)\<rparr>" by (rule refl)
      show "padInput ?L1 h x = Inr (h, x)" by (rule p)
      show "objs h = (objs h)[x := xt\<lparr>tensor := tensor xt\<rparr>]" by (rule o)
      show "length (bufs h) \<le> length (bufs h)" by simp
      show "\<forall>k<length (bufs h). buf h k = buf h k" by simp
      show "shape (tensor xt) = [H, W, C]" by (rule x(2))
      show "length (stride (tensor xt)) = 3" by (rule x(3))
      show "data (tensor xt) < length (bufs h)" by (rule x(4))
      show "kr \<le> H" "kc \<le> W" by (rule f)+
      show "?oR = (H - kr) div s0 + 1" by (rule vr(1))
      show "?oC = (W - kc) div s1 + 1" by (rule vc(1))
      show "0 < ?oR" by (rule vr(2))
      show "0 < ?oC" by (rule vc(2))
      show "\<forall>i j c. 0 \<le> i \<and> i < H \<and> 0 \<le> j \<and> j < W \<and> 0 \<le> c \<and> c < C \<longrightarrow>
           get h (tensor xt) [i, j, c] = padded_input h (tensor xt) 0 0 [i, j, c]" by (rule rd)
    qed
  next
    assume sm: "borderMode L = ''same''"
    let ?oR = "(H + s0 - 1) div s0" and ?oC = "(W + s1 - 1) div s1"
    let ?pR = "max 0 ((?oR - 1) * s0 + kr - H)" and ?pC = "max 0 ((?oC - 1) * s1 + kc - W)"
    let ?pt = "?pR div 2" and ?pl = "?pC div 2"
    let ?pb = "?pR - ?pt" and ?pr = "?pC - ?pl"
    let ?L1 = "L\<lparr>outputShape := Some [?oR, ?oC, nf], inputPadding := Some (?pt, ?pb, ?pl, ?pr)\<rparr>"
    have c: "calcOutputShape L (tensor xt) = Inr ?L1"
      using sm nz k(1) s(1) x(2) by (simp add: calcOutputShape_def Let_def)
    note sr = same_count[OF s(2) x(5) k(2)] and sc = same_count[OF s(3) x(6) k(3)]
    let ?Hc = "H + ?pt + ?pb" and ?Wc = "W + ?pl + ?pr"
    let ?x' = "mk_ndarray (length (bufs h)) [?Hc, ?Wc, C]"
    have bm1: "borderMode ?L1 = ''same''" and ip: "inputPadding ?L1 = Some (?pt, ?pb, ?pl, ?pr)"
      using sm by simp_all
    have d: "0 \<le> H" "0 \<le> W" "0 \<le> C" using x(5-7) by simp_all
    from padInput_same[OF bm1 x(1,2,4) d ip sr(4,5) sc(4,5)]
    obtain h1 where h1: "padInput ?L1 h x = Inr (h1, x)"
      "objs h1 = (objs h)[x := xt\<lparr>tensor := ?x'\<rparr>]"
      "length (bufs h1) = length (bufs h) + 1"
      "\<forall>k<length (bufs h). buf h1 k = buf h k"
      "\<forall>i j c. 0 \<le> i \<and> i < ?Hc \<and> 0 \<le> j \<and> j < ?Wc \<and> 0 \<le> c \<and> c < C \<longrightarrow>
            get h1 ?x' [i, j, c] =
              (if ?pt \<le> i \<and> i < ?pt + H \<and> ?pl \<le> j \<and> j < ?pl + W
               then get h (tensor xt) [i - ?pt, j - ?pl, c] else 0)"
      by blast
    have Hc: "?Hc = H + ?pR" and Wc: "?Wc = W + ?pC" by simp_all
    have rd: "\<forall>i j c. 0 \<le> i \<and> i < ?Hc \<and> 0 \<le> j \<and> j < ?Wc \<and> 0 \<le> c \<and> c < C \<longrightarrow>
           get h1 ?x' [i, j, c] = padded_input h (tensor xt) ?pt ?pl [i, j, c]"
      using h1(5) x(2) by (simp add: padded_input_def)
    have g: "kr \<le> ?Hc" "kc \<le> ?Wc" "?oR = (?Hc - kr) div s0 + 1" "?oC = (?Wc - kc) div s1 + 1"
      unfolding Hc Wc using sr(2,3) sc(2,3) by simp_all
    have m: "shape ?x' = [?Hc, ?Wc, C]" "length (stride ?x') = 3" "data ?x' < length (bufs h1)"
      "length (bufs h) \<le> length (bufs h1)"
      using h1(3) by simp_all
    show ?thesis
    proof (intro exI conjI)
      show "calcOutputShape L (tensor xt) = Inr ?L1" by (rule c)
      show "?L1 = L\<lparr>outputShape := Some [?oR, ?oC, nf], inputPadding := Some (?pt, ?pb, ?pl, ?pr)\<rparr>"
        by (rule refl)
      show "padInput ?L1 h x = Inr (h1, x)" by (rule h1(1))
      show "objs h1 = (objs h)[x := xt\<lparr>tensor := ?x'\<rparr>]" by (rule h1(2))
      show "length (bufs h) \<le> length (bufs h1)" by (rule m(4))
      show "\<forall>k<length (bufs h). buf h1 k = buf h k" by (rule h1(4))
      show "shape ?x' = [?Hc, ?Wc, C]" by (rule m(1))
      show "length (stride ?x') = 3" by (rule m(2))
      show "data ?x' < length (bufs h1)" by (rule m(3))
      show "kr \<le> ?Hc" "kc \<le> ?Wc" by (rule g)+
      show "?oR = (?Hc - kr) div s0 + 1" by (rule g(3))
      show "?oC = (?Wc - kc) div s1 + 1" by (rule g(4))
      show "0 < ?oR" by (rule sr(1))
      show "0 < ?oC" by (rule sc(1))
      show "\<forall>i j c. 0 \<le> i \<and> i < ?Hc \<and> 0 \<le> j \<and> j < ?Wc \<and> 0 \<le> c \<and> c < C \<longrightarrow>
           get h1 ?x' [i, j, c] = padded_input h (tensor xt) ?pt ?pl [i, j, c]" by (rule rd)
    qed
  qed
qed

lemma dot_strides2: "dot (strides [m, n]) [a, b] = a * n + b"
  by (simp add: mult.commute)

lemma bread_map_indices:
  assumes nn: "\<forall>n\<in>set S. 0 \<le> n" and m: "is \<in> set (indices S)"
  shows "bread (map g (indices S)) (dot (strides S) is) = g is"
proof -
  from m obtain n where n: "n < length (indices S)" "indices S ! n = is"
    by (auto simp: in_set_conv_nth)
  have "map (dot (strides S)) (indices S) ! n = map int [0..<nat (prod_list S)] ! n"
    by (simp only: map_dot_indices[OF nn])
  moreover have l: "length (indices S) = nat (prod_list S)"
    using arg_cong[OF map_dot_indices[OF nn], of length] by simp
  ultimately have d: "dot (strides S) is = int n" using n by simp
  show ?thesis using n by (simp add: d bread_def)
qed

lemma sgemm_spec_read:
  assumes "0 \<le> p" "p < P" "0 \<le> f" "f < nf"
  shows "bread (sgemm_spec P nf K A B C) (p * nf + f) =
         foldl (\<lambda>acc k. acc + bread A (p * K + k) * bread B (k * nf + f)) (bread C f) (map int [0..<nat K])"
proof -
  have nn: "\<forall>n\<in>set [P, nf]. 0 \<le> n" using assms by simp
  have m: "[p, f] \<in> set (indices [P, nf])" using assms by simp
  have e: "p * nf + f = dot (strides [P, nf]) [p, f]" by (simp add: mult.commute)
  show ?thesis
    unfolding sgemm_spec_def e by (subst bread_map_indices[OF nn m]) simp
qed

lemma call_spec:
  fixes h :: "'a::{zero,plus,times} heap"
  assumes k: "kernelShape L = (nf, kr, kc)" "0 < nf" "0 < kr" "0 < kc"
    and s: "subsample L = (s0, s1)" "0 < s0" "0 < s1"
    and bm: "borderMode L = ''valid'' \<or> borderMode L = ''same''"
    and tf: "dimOrdering L \<noteq> ''th''"
    and act: "activation L = Some act"
    and wr: "wRowsMat L = Some wr" "data wr < length (bufs h)" "wr = mk_ndarray (data wr) [kr * kc * C, nf]"
    and b: "bias L \<longrightarrow> weights L ''b'' = Some br \<and> br \<noteq> x \<and> deref h br = Some bt
              \<and> data (tensor bt) < length (bufs h)"
    and x: "deref h x = Some xt" "shape (tensor xt) = [H, W, C]" "length (stride (tensor xt)) = 3"
      "data (tensor xt) < length (bufs h)" "0 < H" "0 < W" "0 < C"
    and fit: "borderMode L = ''valid'' \<longrightarrow> kr \<le> H \<and> kc \<le> W"
    and wb: "useWeblas xt \<longrightarrow> sg = sgemm_spec
               \<and> (bias L \<longrightarrow> stride (tensor bt) = [1] \<and> offset (tensor bt) = 0)"
  shows "\<exists>L1 oR oC pt pb pl pr h' No B.
       calcOutputShape L (tensor xt) = Inr L1
     \<and> L1 = L\<lparr>outputShape := Some [oR, oC, nf], inputPadding := Some (pt, pb, pl, pr)\<rparr>
     \<and> call sg L h x = Inr (L1, h', x)
     \<and> 0 < oR \<and> 0 < oC
     \<and> length (bufs h) \<le> No \<and> No < length (bufs h')
     \<and> objs h' = (objs h)[x := xt\<lparr>tensor := mk_ndarray No [oR, oC, nf]\<rparr>]
     \<and> (\<forall>k<length (bufs h). buf h' k = buf h k)
     \<and> buf h' No = act B \<and> int (length B) = oR * oC * nf
     \<and> (\<forall>a b f. 0 \<le> a \<and> a < oR \<and> 0 \<le> b \<and> b < oC \<and> 0 \<le> f \<and> f < nf \<longrightarrow>
           bread B (dot (strides [oR, oC, nf]) [a, b, f]) =
             foldl (\<lambda>acc is. acc + padded_input h (tensor xt) pt pl [a * s0 + is ! 0, b * s1 + is ! 1, is ! 2]
                                   * get h wr [dot (strides [kr, kc, C]) is, f])
               (if bias L then get h (tensor bt) [f] else 0) (indices [kr, kc, C]))"
proof -
  let ?X = "tensor xt"
  let ?S3 = "[kr, kc, C]"
  let ?K = "kr * kc * C"
  from pad_stage[OF k(1,3,4) s bm x fit]
  obtain L1 oR oC pt pb pl pr h1 Xc Hc Wc where
    c: "calcOutputShape L ?X = Inr L1"
    and L1: "L1 = L\<lparr>outputShape := Some [oR, oC, nf], inputPadding := Some (pt, pb, pl, pr)\<rparr>"
    and p: "padInput L1 h x = Inr (h1, x)"
    and o1: "objs h1 = (objs h)[x := xt\<lparr>tensor := Xc\<rparr>]"
    and l1: "length (bufs h) \<le> length (bufs h1)" and f1: "\<forall>k<length (bufs h). buf h1 k = buf h k"
    and Xc: "shape Xc = [Hc, Wc, C]" "length (stride Xc) = 3" "data Xc < length (bufs h1)"
    and fits: "kr \<le> Hc" "kc \<le> Wc" and oe: "oR = (Hc - kr) div s0 + 1" "oC = (Wc - kc) div s1 + 1"
    and op: "0 < oR" "0 < oC"
    and rd: "\<forall>i j c. 0 \<le> i \<and> i < Hc \<and> 0 \<le> j \<and> j < Wc \<and> 0 \<le> c \<and> c < C \<longrightarrow>
           get h1 Xc [i, j, c] = padded_input h ?X pt pl [i, j, c]"
    by (elim exE conjE)
  have xr: "objs h ! x = xt" "x < length (objs h)"
    using x(1) by (auto simp: deref_def split: if_splits)
  let ?xc = "xt\<lparr>tensor := Xc\<rparr>"
  have d1: "deref h1 x = Some ?xc" using xr o1 by (simp add: deref_def)
  have Lf: "kernelShape L1 = (nf, kr, kc)" "subsample L1 = (s0, s1)" "outputShape L1 = Some [oR, oC, nf]"
    "bias L1 = bias L" "weights L1 = weights L" "wRowsMat L1 = Some wr" "activation L1 = Some act"
    using k(1) s(1) wr(1) act by (simp_all add: L1)
  let ?N1 = "length (bufs h1)"
  let ?im = "mk_ndarray ?N1 [oR * oC, ?K]"
  have kn: "0 \<le> kr" "0 \<le> kc" "0 \<le> C" using k x by simp_all
  from im2col_spec[where xt = ?xc and L = L1, OF d1 _ _ _ Lf(1) kn Lf(2) s(2,3) fits Lf(3) oe]
  obtain h2 where i2: "im2col L1 h1 x = Inr (h2, ?im)" and o2: "objs h2 = objs h1"
    and l2: "length (bufs h2) = ?N1 + 3" and f2: "\<forall>k<?N1. buf h2 k = buf h1 k"
    and li: "int (length (buf h2 ?N1)) = oR * oC * ?K"
    and rim: "\<And>a b di dj c. 0 \<le> a \<Longrightarrow> a < oR \<Longrightarrow> 0 \<le> b \<Longrightarrow> b < oC \<Longrightarrow>
            [di, dj, c] \<in> set (indices ?S3) \<Longrightarrow>
            get h2 ?im [a * oC + b, dot (strides ?S3) [di, dj, c]] = get h1 Xc [a * s0 + di, b * s1 + dj, c]"
    using Xc by auto
  let ?P = "oR * oC"
  let ?Nm = "?N1 + 3"
  let ?mm = "mk_ndarray ?Nm [?P, nf]"
  let ?h3 = "h2\<lparr>bufs := bufs h2 @ [replicate (nat (?P * nf)) 0]\<rparr>"
  have Pn: "0 \<le> ?P" "0 \<le> ?P * nf" "0 \<le> nf" using op k(2) by simp_all
  have a3: "newTensor h2 [?P, nf] = Inr (?h3, ?mm)"
    using Pn newTensor_ok[of "[?P, nf]" h2] l2 by simp
  have vm3: "view_ok ?h3 ?mm"
    using Pn l2 by (intro view_ok_fresh) (simp_all add: buf_alloc)
  define bv where "bv = (\<lambda>f. if bias L then get h (tensor bt) [f] else (0::'a f32))"
  have old3: "buf ?h3 k = buf h k" if "k < length (bufs h)" for k
    using that l1 l2 f1 f2 by (simp add: buf_alloc)
  have "\<exists>h4. bias_fill L1 ?h3 ?mm nf = Inr h4 \<and> objs h4 = objs ?h3 \<and> length (bufs h4) = length (bufs ?h3)
      \<and> (\<forall>k. length (buf h4 k) = length (buf ?h3 k)) \<and> (\<forall>k. k \<noteq> ?Nm \<longrightarrow> buf h4 k = buf ?h3 k)
      \<and> (\<forall>p f. 0 \<le> p \<and> p < ?P \<and> 0 \<le> f \<and> f < nf \<longrightarrow> get h4 ?mm [p, f] = bv f)"
  proof (cases "bias L")
    case True
    from b True have bw: "weights L ''b'' = Some br" "br \<noteq> x" "deref h br = Some bt"
      "data (tensor bt) < length (bufs h)" by simp_all
    have "deref ?h3 br = Some bt"
      using bw(2,3) o1 o2 by (auto simp: deref_def split: if_splits)
    then have e: "bias_fill L1 ?h3 ?mm nf =
        Inr (foldl (\<lambda>h' n. assigns h' (pick ?mm [None, Some n]) (get h' (tensor bt) [n])) ?h3 (map int [0..<nat nf]))"
      using True k(2) bw(1) Lf(4,5) by (simp add: bias_fill_def)
    have len: "?Nm < length (bufs ?h3)" "int (length (buf ?h3 ?Nm)) = prod_list [?P, nf]"
      using Pn l2 by (simp_all add: buf_alloc)
    have dB: "data (tensor bt) \<noteq> ?Nm" using bw(4) l1 by simp
    have m: "int (nat nf) \<le> nf" using k(2) by simp
    have B3: "get ?h3 (tensor bt) [f] = get h (tensor bt) [f]" for f
      by (rule get_cong_buf) (rule old3[OF bw(4)])
    from bias_loop[OF Pn(1,3) len dB m] True B3 k(2) e show ?thesis
      by (simp add: bv_def)
  next
    case False
    have z: "get ?h3 ?mm [p, f] = 0" if pf: "0 \<le> p" "p < ?P" "0 \<le> f" "f < nf" for p f
    proof -
      have "[p, f] \<in> set (indices [?P, nf])" using pf by simp
      from strides_range[OF this] have "0 \<le> index ?mm [p, f]" "index ?mm [p, f] < ?P * nf"
        using Pn by (simp_all add: index_mk_ndarray)
      then show ?thesis
        using Pn l2 by (simp add: get_def buf_alloc bread_replicate_zero)
    qed
    show ?thesis
      using False Lf(4) z by (intro exI[of _ ?h3]) (simp add: bias_fill_def bv_def)
  qed
  then obtain h4 where b4: "bias_fill L1 ?h3 ?mm nf = Inr h4" and o4: "objs h4 = objs ?h3"
    and l4: "length (bufs h4) = length (bufs ?h3)"
    and ll4: "\<And>k. length (buf h4 k) = length (buf ?h3 k)"
    and f4: "\<And>k. k \<noteq> ?Nm \<Longrightarrow> buf h4 k = buf ?h3 k"
    and r4: "\<And>p f. 0 \<le> p \<Longrightarrow> p < ?P \<Longrightarrow> 0 \<le> f \<Longrightarrow> f < nf \<Longrightarrow> get h4 ?mm [p, f] = bv f"
    by blast
  have vm4: "view_ok h4 ?mm"
    using vm3 view_ok_cong[of h4 ?h3 ?mm] l4 ll4 by simp
  have wsh: "shape wr = [?K, nf]" "stride wr = [nf, 1]" "offset wr = 0"
    using wr(3) kn k(2) offset_mk_ndarray[of "[?K, nf]" "data wr"]
    by (metis mk_ndarray_simps(2), metis mk_ndarray_simps(3) strides.simps list.simps(8,9) prod_list.Cons prod_list.Nil mult.right_neutral,
        simp)
  let ?N4 = "length (bufs h4)"
  have N4: "?N4 = ?N1 + 4" using l4 l2 by simp
  have "\<exists>h5 mm'. matmul_step sg L1 h4 (useWeblas xt) ?mm ?im = Inr (h5, mm')
      \<and> objs h5 = objs h4 \<and> ?N4 \<le> length (bufs h5)
      \<and> (\<forall>k<?N4. k \<noteq> ?Nm \<longrightarrow> buf h5 k = buf h4 k)
      \<and> shape mm' = [?P, nf] \<and> length (stride mm') = 2 \<and> data mm' < length (bufs h5)
      \<and> (\<forall>p f. 0 \<le> p \<and> p < ?P \<and> 0 \<le> f \<and> f < nf \<longrightarrow>
            get h5 mm' [p, f] =
              foldl (\<lambda>acc k. acc + get h4 ?im [p, k] * get h4 wr [k, f]) (bv f) (map int [0..<nat ?K]))"
  proof (cases "useWeblas xt")
    case False
    let ?h5 = "gemm_loop h4 ?mm ?im wr"
    have m5: "matmul_step sg L1 h4 (useWeblas xt) ?mm ?im = Inr (?h5, ?mm)"
      using False Lf(6) wsh(1) by (simp add: matmul_step_def gemm_def ebind_def)
    have dw: "data wr \<noteq> data ?mm" "data ?im \<noteq> data ?mm" using wr(2) l1 by simp_all
    note g5 = gemm_spec[OF vm4 _ _ dw(2) dw(1), where P = ?P and nf = nf and Pa = ?P and K = ?K, simplified]
    have v: "get ?h5 ?mm [p, f] =
              foldl (\<lambda>acc k. acc + get h4 ?im [p, k] * get h4 wr [k, f]) (bv f) (map int [0..<nat ?K])"
      if "0 \<le> p" "p < ?P" "0 \<le> f" "f < nf" for p f
      using g5(1)[OF that] r4[OF that] by simp
    show ?thesis
    proof (intro exI conjI)
      show "matmul_step sg L1 h4 (useWeblas xt) ?mm ?im = Inr (?h5, ?mm)" by (rule m5)
      show "objs ?h5 = objs h4" by (rule g5(2))
      show "?N4 \<le> length (bufs ?h5)" using g5(3) by simp
      show "\<forall>k<?N4. k \<noteq> ?Nm \<longrightarrow> buf ?h5 k = buf h4 k" using g5(4) by simp
      show "shape ?mm = [?P, nf]" by simp
      show "length (stride ?mm) = 2" by simp
      show "data ?mm < length (bufs ?h5)" using g5(3) N4 by simp
      show "\<forall>p f. 0 \<le> p \<and> p < ?P \<and> 0 \<le> f \<and> f < nf \<longrightarrow>
            get ?h5 ?mm [p, f] =
              foldl (\<lambda>acc k. acc + get h4 ?im [p, k] * get h4 wr [k, f]) (bv f) (map int [0..<nat ?K])"
        using v by blast
    qed
  next
    case True
    with wb have sg: "sg = sgemm_spec"
      and bc: "bias L \<Longrightarrow> stride (tensor bt) = [1] \<and> offset (tensor bt) = 0" by simp_all
    let ?A = "buf h4 (data ?im)" and ?Bw = "buf h4 (data wr)"
    define Cb where "Cb = (if bias L then buf h4 (data (tensor bt)) else replicate (nat nf) 0)"
    let ?R = "sgemm_spec ?P nf ?K ?A ?Bw Cb"
    let ?h5 = "h4\<lparr>bufs := bufs h4 @ [?R]\<rparr>"
    let ?mm' = "?mm\<lparr>data := ?N4\<rparr>"
    have bd: "(if bias L1 then
                 (case weights L1 ''b'' of None \<Rightarrow> Inl TypeError
                  | Some b \<Rightarrow> (case deref h4 b of None \<Rightarrow> Inl TypeError
                              | Some bt \<Rightarrow> Inr (buf h4 (data (tensor bt)))))
               else if nf < 0 then Inl RangeError else Inr (replicate (nat nf) 0)) = Inr Cb"
    proof (cases "bias L")
      case True
      from b True have bw: "weights L ''b'' = Some br" "br \<noteq> x" "deref h br = Some bt" by simp_all
      have "deref h4 br = Some bt"
        using bw(2,3) o1 o2 o4 by (auto simp: deref_def split: if_splits)
      then show ?thesis using True bw(1) Lf(4,5) by (simp add: Cb_def)
    next
      case False
      then show ?thesis using k(2) Lf(4) by (simp add: Cb_def)
    qed
    have m5: "matmul_step sg L1 h4 (useWeblas xt) ?mm ?im = Inr (?h5, ?mm')"
      using True Lf(6) wsh(1) bd by (simp add: matmul_step_def ebind_def sg)
    have cf: "bread Cb f = bv f" if "0 \<le> f" "f < nf" for f
    proof (cases "bias L")
      case True
      from b True have bw: "data (tensor bt) < length (bufs h)" by simp
      have "data (tensor bt) \<noteq> ?Nm" using bw l1 by simp
      then have "buf h4 (data (tensor bt)) = buf h (data (tensor bt))"
        using f4 old3[OF bw] by simp
      then show ?thesis
        using True bc[OF True] that by (simp add: Cb_def bv_def get_def index_def)
    next
      case False
      then show ?thesis using that by (simp add: Cb_def bv_def bread_replicate_zero)
    qed
    have v: "get ?h5 ?mm' [p, f] =
              foldl (\<lambda>acc k. acc + get h4 ?im [p, k] * get h4 wr [k, f]) (bv f) (map int [0..<nat ?K])"
      if pf: "0 \<le> p" "p < ?P" "0 \<le> f" "f < nf" for p f
    proof -
      have "get ?h5 ?mm' [p, f] = bread ?R (p * nf + f)"
        using Pn by (simp add: get_def index_def buf_alloc offset_mk_ndarray mult.commute)
      also have "\<dots> = foldl (\<lambda>acc k. acc + bread ?A (p * ?K + k) * bread ?Bw (k * nf + f)) (bread Cb f)
                          (map int [0..<nat ?K])"
        by (rule sgemm_spec_read[OF pf])
      also have "\<dots> = foldl (\<lambda>acc k. acc + get h4 ?im [p, k] * get h4 wr [k, f]) (bv f) (map int [0..<nat ?K])"
      proof (rule foldl_cong[OF cf[OF pf(3,4)] refl])
        fix acc :: "'a f32" and kk :: int
        have "get h4 ?im [p, kk] = bread ?A (p * ?K + kk)"
          using Pn kn by (simp add: get_def index_def offset_mk_ndarray mult.commute)
        moreover have "get h4 wr [kk, f] = bread ?Bw (kk * nf + f)"
          by (simp add: get_def index_def wsh mult.commute)
        ultimately show "acc + bread ?A (p * ?K + kk) * bread ?Bw (kk * nf + f) =
                         acc + get h4 ?im [p, kk] * get h4 wr [kk, f]" by simp
      qed
      finally show ?thesis .
    qed
    show ?thesis
    proof (intro exI conjI)
      show "matmul_step sg L1 h4 (useWeblas xt) ?mm ?im = Inr (?h5, ?mm')" by (rule m5)
      show "objs ?h5 = objs h4" by simp
      show "?N4 \<le> length (bufs ?h5)" by simp
      show "\<forall>k<?N4. k \<noteq> ?Nm \<longrightarrow> buf ?h5 k = buf h4 k" by (simp add: buf_alloc)
      show "shape ?mm' = [?P, nf]" by simp
      show "length (stride ?mm') = 2" by simp
      show "data ?mm' < length (bufs ?h5)" by simp
      show "\<forall>p f. 0 \<le> p \<and> p < ?P \<and> 0 \<le> f \<and> f < nf \<longrightarrow>
            get ?h5 ?mm' [p, f] =
              foldl (\<lambda>acc k. acc + get h4 ?im [p, k] * get h4 wr [k, f]) (bv f) (map int [0..<nat ?K])"
        using v by blast
    qed
  qed
  then obtain h5 mm' where m5: "matmul_step sg L1 h4 (useWeblas xt) ?mm ?im = Inr (h5, mm')"
    and o5: "objs h5 = objs h4" and l5: "?N4 \<le> length (bufs h5)"
    and f5: "\<And>k. k < ?N4 \<Longrightarrow> k \<noteq> ?Nm \<Longrightarrow> buf h5 k = buf h4 k"
    and M: "shape mm' = [?P, nf]" "length (stride mm') = 2" "data mm' < length (bufs h5)"
    and r5: "\<And>p f. 0 \<le> p \<Longrightarrow> p < ?P \<Longrightarrow> 0 \<le> f \<Longrightarrow> f < nf \<Longrightarrow>
            get h5 mm' [p, f] =
              foldl (\<lambda>acc k. acc + get h4 ?im [p, k] * get h4 wr [k, f]) (bv f) (map int [0..<nat ?K])"
    by blast
  let ?No = "length (bufs h5)"
  let ?out = "mk_ndarray ?No [oR, oC, nf]"
  let ?ocr = "mk_ndarray (?No + 1) [oR * oC]" and ?oc = "mk_ndarray (?No + 2) [oR, oC]"
  let ?h6 = "h5\<lparr>bufs := bufs h5 @ [replicate (nat (oR * oC * nf)) 0]\<rparr>"
  let ?h7 = "?h6\<lparr>bufs := bufs ?h6 @ [replicate (nat (oR * oC)) 0]\<rparr>"
  let ?h8 = "?h7\<lparr>bufs := bufs ?h7 @ [replicate (nat (oR * oC)) 0]\<rparr>"
  have a6: "newTensor h5 [oR, oC, nf] = Inr (?h6, ?out)"
    using Pn newTensor_ok[of "[oR, oC, nf]" h5] by (simp add: mult.assoc)
  have a7: "newTensor ?h6 [oR * oC] = Inr (?h7, ?ocr)"
    using Pn newTensor_ok[of "[oR * oC]" ?h6] by simp
  have a8: "newTensor ?h7 [oR, oC] = Inr (?h8, ?oc)"
    using Pn newTensor_ok[of "[oR, oC]" ?h7] by simp
  have len8: "length (bufs ?h8) = ?No + 3"
    "int (length (buf ?h8 ?No)) = prod_list [oR, oC, nf]"
    "int (length (buf ?h8 (?No + 1))) = prod_list [oR, oC]"
    using Pn by (simp_all add: buf_def nth_append mult.assoc)
  have on: "0 \<le> oR" "0 \<le> oC" using op by simp_all
  have m9: "int (nat nf) \<le> nf" using k(2) by simp
  let ?h9 = "foldl (output_copy mm' ?out ?ocr ?oc) ?h8 (map int [0..<nat nf])"
  have lp9: "for_loop 0 (nf - 1) 1 (output_body mm' ?out ?ocr ?oc) ?h8 = Inr ?h9"
    by (rule for_loop_count) (rule output_body_copy[OF M(1)], simp_all)
  from output_loop[OF on Pn(3) M(2,3) len8 m9]
  have o9: "objs ?h9 = objs ?h8" and l9: "length (bufs ?h9) = ?No + 3"
    and ll9: "\<And>k. length (buf ?h9 k) = length (buf ?h8 k)"
    and f9: "\<And>k. k < ?No \<Longrightarrow> buf ?h9 k = buf ?h8 k"
    and r9: "\<And>a b f. [a, b] \<in> set (indices [oR, oC]) \<Longrightarrow> 0 \<le> f \<Longrightarrow> f < nf \<Longrightarrow>
         get ?h9 ?out [a, b, f] = get ?h8 mm' [dot (strides [oR, oC]) [a, b], f]"
    using k(2) by simp_all
  let ?B = "buf ?h9 ?No"
  let ?h10 = "set_tensor ?h9 x ?out"
  let ?h11 = "?h10\<lparr>bufs := (bufs ?h10)[?No := act (buf ?h10 ?No)]\<rparr>"
  have cl: "call sg L h x = Inr (L1, ?h11, x)"
    using x(1) tf c p i2 a3 b4 m5 a6 a7 a8 lp9 Lf(1,3,7) xr(1)
    by (simp add: call_def ebind_def Let_def)
  have ob: "objs ?h9 = objs h1"
    using o9 o5 o4 o2 by simp
  have c_objs: "objs ?h11 = (objs h)[x := xt\<lparr>tensor := ?out\<rparr>]"
    using ob o1 xr by (simp add: objs_set_tensor)
  have old8: "buf ?h8 k = buf h5 k" if "k < ?No" for k
    using that by (simp add: buf_def nth_append)
  have c_old: "\<forall>k<length (bufs h). buf ?h11 k = buf h k"
  proof (intro allI impI)
    fix k assume kk: "k < length (bufs h)"
    then have k1: "k < ?N1" "k < ?No" "k \<noteq> ?Nm" "k \<noteq> ?No" "k < ?N4" using l1 l5 N4 by simp_all
    have "buf ?h11 k = buf ?h9 k" using k1(4) by (simp add: buf_def)
    also have "\<dots> = buf h5 k" using f9[OF k1(2)] old8[OF k1(2)] by simp
    also have "\<dots> = buf h4 k" using f5[OF k1(5,3)] by simp
    also have "\<dots> = buf h k" using f4[OF k1(3)] old3[OF kk] by simp
    finally show "buf ?h11 k = buf h k" .
  qed
  have c_B: "buf ?h11 ?No = act ?B"
    using l9 by (simp add: buf_def)
  have c_len: "int (length ?B) = oR * oC * nf"
    using ll9[of ?No] len8(2) by (simp add: mult.assoc)
  have c_val: "bread ?B (dot (strides [oR, oC, nf]) [a, b, f]) =
      foldl (\<lambda>acc is. acc + padded_input h ?X pt pl [a * s0 + is ! 0, b * s1 + is ! 1, is ! 2]
                            * get h wr [dot (strides ?S3) is, f])
        (if bias L then get h (tensor bt) [f] else 0) (indices ?S3)"
    if r: "0 \<le> a" "a < oR" "0 \<le> b" "b < oC" "0 \<le> f" "f < nf" for a b f
  proof -
    let ?p = "a * oC + b"
    have pr: "0 \<le> ?p" "?p < ?P"
    proof -
      show "0 \<le> ?p" using r on by simp
      have "a + 1 \<le> oR" using r by simp
      then have "(a + 1) * oC \<le> oR * oC" using on by (intro mult_right_mono) simp_all
      then show "?p < ?P" using r by (simp add: algebra_simps)
    qed
    have "bread ?B (dot (strides [oR, oC, nf]) [a, b, f]) = get ?h9 ?out [a, b, f]"
      using on Pn(3) by (simp add: get_def index_mk_ndarray)
    also have "\<dots> = get ?h8 mm' [?p, f]"
      using r9[of a b f] r by (simp add: dot_strides2 del: dot.simps strides.simps)
    also have "\<dots> = get h5 mm' [?p, f]"
      by (rule get_cong_buf) (rule old8[OF M(3)])
    also have "\<dots> = foldl (\<lambda>acc k. acc + get h4 ?im [?p, k] * get h4 wr [k, f]) (bv f)
                        (map int [0..<nat ?K])"
      by (rule r5[OF pr r(5,6)])
    also have "\<dots> = foldl (\<lambda>acc k. acc + get h4 ?im [?p, k] * get h4 wr [k, f]) (bv f)
                        (map int [0..<nat (prod_list ?S3)])"
      by (simp add: mult.assoc)
    also have "\<dots> = foldl (\<lambda>acc is. acc + get h4 ?im [?p, dot (strides ?S3) is] * get h4 wr [dot (strides ?S3) is, f])
                        (bv f) (indices ?S3)"
      using kn by (intro foldl_over_indices) simp
    also have "\<dots> = foldl (\<lambda>acc is. acc + padded_input h ?X pt pl [a * s0 + is ! 0, b * s1 + is ! 1, is ! 2]
                            * get h wr [dot (strides ?S3) is, f]) (bv f) (indices ?S3)"
    proof (rule foldl_cong[OF refl refl])
      fix acc :: "'a f32" and "is" assume "is \<in> set (indices ?S3)"
      then obtain di dj c where i: "is = [di, dj, c]" and m: "[di, dj, c] \<in> set (indices ?S3)"
        and rg: "0 \<le> di" "di < kr" "0 \<le> dj" "dj < kc" "0 \<le> c" "c < C"
        by (auto simp: set_indices_Cons)
      have "get h4 ?im [?p, dot (strides ?S3) is] = get h2 ?im [?p, dot (strides ?S3) is]"
        by (rule get_cong_buf) (simp add: f4 buf_alloc l2)
      also have "\<dots> = get h1 Xc [a * s0 + di, b * s1 + dj, c]"
        unfolding i by (rule rim[OF r(1-4) m])
      also have "\<dots> = padded_input h ?X pt pl [a * s0 + di, b * s1 + dj, c]"
        using rd window_in_range[OF s(2) r(1) _ rg(1,2), of Hc] window_in_range[OF s(3) r(3) _ rg(3,4), of Wc]
          r(2,4) rg(5,6) oe by simp
      finally have e1: "get h4 ?im [?p, dot (strides ?S3) is] =
          padded_input h ?X pt pl [a * s0 + is ! 0, b * s1 + is ! 1, is ! 2]"
        by (simp add: i)
      have e2: "get h4 wr [dot (strides ?S3) is, f] = get h wr [dot (strides ?S3) is, f]"
      proof (rule get_cong_buf)
        have "data wr \<noteq> ?Nm" using wr(2) l1 by simp
        then show "buf h4 (data wr) = buf h (data wr)" using f4 old3[OF wr(2)] by simp
      qed
      show "acc + get h4 ?im [?p, dot (strides ?S3) is] * get h4 wr [dot (strides ?S3) is, f] =
            acc + padded_input h ?X pt pl [a * s0 + is ! 0, b * s1 + is ! 1, is ! 2]
                    * get h wr [dot (strides ?S3) is, f]"
        unfolding e1 e2 ..
    qed
    finally show ?thesis by (simp add: bv_def)
  qed
  have c_No: "length (bufs h) \<le> ?No" "?No < length (bufs ?h11)"
    using l1 l9 l5 N4 by simp_all
  show ?thesis
  proof (intro exI conjI)
    show "calcOutputShape L ?X = Inr L1" by (rule c)
    show "L1 = L\<lparr>outputShape := Some [oR, oC, nf], inputPadding := Some (pt, pb, pl, pr)\<rparr>" by (rule L1)
    show "call sg L h x = Inr (L1, ?h11, x)" by (rule cl)
    show "0 < oR" "0 < oC" by (rule op)+
    show "length (bufs h) \<le> ?No" "?No < length (bufs ?h11)" by (rule c_No)+
    show "objs ?h11 = (objs h)[x := xt\<lparr>tensor := ?out\<rparr>]" by (rule c_objs)
    show "\<forall>k<length (bufs h). buf ?h11 k = buf h k" by (rule c_old)
    show "buf ?h11 ?No = act ?B" by (rule c_B)
    show "int (length ?B) = oR * oC * nf" by (rule c_len)
    show "\<forall>a b f. 0 \<le> a \<and> a < oR \<and> 0 \<le> b \<and> b < oC \<and> 0 \<le> f \<and> f < nf \<longrightarrow>
           bread ?B (dot (strides [oR, oC, nf]) [a, b, f]) =
             foldl (\<lambda>acc is. acc + padded_input h ?X pt pl [a * s0 + is ! 0, b * s1 + is ! 1, is ! 2]
                                   * get h wr [dot (strides ?S3) is, f])
               (if bias L then get h (tensor bt) [f] else 0) (indices ?S3)"
      using c_val by blast
  qed
qed

subsection \<open>Output shape and padding arithmetic\<close>

lemma ceil_div_aux:
  assumes "0 < (s::int)"
  shows "(h + s - 1) div s = - ((- h) div s)"
proof (cases "h mod s = 0")
  case True
  have "h + s - 1 = s * (h div s) + (s - 1)"
    using True mult_div_mod_eq[of s h] by simp
  then have "(h + s - 1) div s = h div s"
    using assms int_div_pos_eq[of "h + s - 1" s "h div s" "s - 1"] by simp
  moreover have "(- h) div s = - (h div s)"
    using True assms by (simp add: zdiv_zminus1_eq_if)
  ultimately show ?thesis by simp
next
  case False
  have m: "0 < h mod s" "h mod s < s"
    using False assms by (auto simp: le_less dest: pos_mod_sign[of s h] pos_mod_bound[of s h])
  have "h = s * (h div s) + h mod s" by simp
  then have "h + s - 1 = s * (h div s + 1) + (h mod s - 1)"
    by (simp add: algebra_simps)
  then have "(h + s - 1) div s = h div s + 1"
    using m int_div_pos_eq[of "h + s - 1" s "h div s + 1" "h mod s - 1"] by simp
  moreover have "(- h) div s = - (h div s) - 1"
    using False assms by (simp add: zdiv_zminus1_eq_if)
  ultimately show ?thesis by simp
qed

lemma ceil_div: "0 < (s::int) \<Longrightarrow> (h + s - 1) div s = \<lceil>real_of_int h / real_of_int s\<rceil>"
  by (simp add: ceil_div_aux ceiling_divide_eq_div)

text \<open>
  Claim C2. For strides of at least one, \<^verbatim>\<open>_calcOutputShape\<close> stores, in valid mode, the
  output size floor((H - kernelRows + strideRows) / strideRows) (columns alike) and the
  padding (0, 0, 0, 0); in same mode the output size ceil(H / strideRows), the total
  padding max(0, (outRows - 1) * strideRows + kernelRows - H), split into
  floor(total / 2) before and the rest after, so that an odd pixel goes to the after
  side; columns alike.
\<close>

theorem calcOutputShape_formulas:
  assumes "0 < s0" and "0 < s1"
    and "kernelShape L = (nbFilter, nbRow, nbCol)" and "subsample L = (s0, s1)"
    and "shape x = H # W # rest"
  shows "(borderMode L = ''valid'' \<longrightarrow>
           calcOutputShape L x =
             Inr (L\<lparr>outputShape := Some [\<lfloor>real_of_int (H - nbRow + s0) / real_of_int s0\<rfloor>,
                                       \<lfloor>real_of_int (W - nbCol + s1) / real_of_int s1\<rfloor>, nbFilter],
                    inputPadding := Some (0, 0, 0, 0)\<rparr>))
       \<and> (borderMode L = ''same'' \<longrightarrow>
           (let outRows = \<lceil>real_of_int H / real_of_int s0\<rceil>;
                outCols = \<lceil>real_of_int W / real_of_int s1\<rceil>;
                totalPadRows = max 0 ((outRows - 1) * s0 + nbRow - H);
                totalPadCols = max 0 ((outCols - 1) * s1 + nbCol - W);
                padTop = \<lfloor>real_of_int totalPadRows / 2\<rfloor>;
                padLeft = \<lfloor>real_of_int totalPadCols / 2\<rfloor>
            in calcOutputShape L x =
                 Inr (L\<lparr>outputShape := Some [outRows, outCols, nbFilter],
                        inputPadding := Some (padTop, totalPadRows - padTop,
                                              padLeft, totalPadCols - padLeft)\<rparr>)
               \<and> (totalPadRows - padTop) - padTop = totalPadRows mod 2
               \<and> (totalPadCols - padLeft) - padLeft = totalPadCols mod 2))"
proof -
  let ?oR = "(H + s0 - 1) div s0" and ?oC = "(W + s1 - 1) div s1"
  let ?pR = "max 0 ((?oR - 1) * s0 + nbRow - H)" and ?pC = "max 0 ((?oC - 1) * s1 + nbCol - W)"
  have nz: "s0 \<noteq> 0" "s1 \<noteq> 0"
    using assms(1,2) by simp_all
  have valid: "calcOutputShape L x =
      Inr (L\<lparr>outputShape := Some [(H - nbRow + s0) div s0, (W - nbCol + s1) div s1, nbFilter],
             inputPadding := Some (0, 0, 0, 0)\<rparr>)" if "borderMode L = ''valid''"
    using that nz assms(3-5) by (simp add: calcOutputShape_def Let_def del: div_add_self2)
  have same: "calcOutputShape L x =
      Inr (L\<lparr>outputShape := Some [?oR, ?oC, nbFilter],
             inputPadding := Some (?pR div 2, ?pR - ?pR div 2, ?pC div 2, ?pC - ?pC div 2)\<rparr>)"
    if "borderMode L = ''same''"
    using that nz assms(3-5) by (simp add: calcOutputShape_def Let_def)
  have f1: "\<lfloor>real_of_int (H - nbRow + s0) / real_of_int s0\<rfloor> = (H - nbRow + s0) div s0"
    and f2: "\<lfloor>real_of_int (W - nbCol + s1) / real_of_int s1\<rfloor> = (W - nbCol + s1) div s1"
    by (rule floor_divide_of_int_eq)+
  have c1: "\<lceil>real_of_int H / real_of_int s0\<rceil> = ?oR"
    and c2: "\<lceil>real_of_int W / real_of_int s1\<rceil> = ?oC"
    using assms(1,2) by (simp_all add: ceil_div)
  have h2: "\<lfloor>real_of_int p / 2\<rfloor> = p div 2" for p :: int
    using floor_divide_of_int_eq[of p 2, where ?'a = real] by simp
  have md: "p - p div 2 - p div 2 = p mod 2" for p :: int
    by presburger
  show ?thesis
    unfolding Let_def f1 f2 c1 c2 h2
    using valid same md[of ?pR] md[of ?pC] by blast
qed

theorem calcOutputShape_formulas_witness:
  "calcOutputShape layer_same_2 (mk_ndarray 0 [5, 5, 1]) =
     Inr (layer_same_2\<lparr>outputShape := Some [3, 3, 1], inputPadding := Some (1, 1, 1, 1)\<rparr>)"
proof -
  have k: "kernelShape layer_same_2 = (1, 3, 3)" and s: "subsample layer_same_2 = (2, 2)"
    and b: "borderMode layer_same_2 = ''same''"
    by (simp_all add: layer_same_2_def)
  have sh: "shape (mk_ndarray 0 [5, 5, 1]) = 5 # 5 # [1]"
    by (simp add: mk_ndarray_def)
  show ?thesis
    using calcOutputShape_formulas[OF _ _ k s sh] b
    by (simp add: Let_def)
qed

subsection \<open>Construction\<close>

text \<open>
  Claim C4, as amended. The constructor checks two attributes only: it fails exactly
  when borderMode is neither valid nor same or dimOrdering is neither tf nor th, and
  the error carries the layer's name and says which of the two was wrong. The number
  of filters, the kernel size and the strides are stored as given.
\<close>

theorem constructor_validation:
  "isl (constructor activations a) =
     (default ''valid'' (attr_borderMode a) \<notin> {''valid'', ''same''}
      \<or> default ''tf'' (attr_dimOrdering a) \<notin> {''tf'', ''th''})
   \<and> (\<forall>e. constructor activations a = Inl e \<longrightarrow>
         e = ConfigError (name_text (attr_name a) @ '' [Convolution2D layer] Invalid borderMode.'')
       \<or> e = ConfigError (name_text (attr_name a) @
               '' [Convolution2D layer] Only tf and th dim ordering are allowed.''))
   \<and> (\<forall>L. constructor activations a = Inr L \<longrightarrow>
         kernelShape L = (default 1 (attr_nbFilter a), default 3 (attr_nbRow a),
                          default 3 (attr_nbCol a))
       \<and> subsample L = default (1, 1) (attr_subsample a))"
  by (auto simp add: constructor_def Let_def)

theorem constructor_validation_witness:
  "constructor no_activations attrs_bad_border =
     Inl (ConfigError ''conv1 [Convolution2D layer] Invalid borderMode.'')"
  using constructor_validation[of no_activations attrs_bad_border]
  by (simp add: constructor_def Let_def attrs_bad_border_def default_def name_text_def)

text \<open>
  The claim as it was stated fails: with no filters, a kernel of 0 by -1 and strides
  of 0 the constructor returns a layer.
\<close>

theorem constructor_numeric_counterexample:
  "\<not> isl (constructor no_activations attrs_zero)"
  by (simp add: constructor_def Let_def attrs_zero_def default_def)

subsection \<open>Axis order\<close>

text \<open>
  Claim C7. On a tensor of rank 3, the transposition at the entry of \<^verbatim>\<open>call\<close>
  (channels first to channels last) followed by the one at its exit gives back the same
  view of the same buffer; the first one moves the element at (c, i, j) to (i, j, c).
\<close>

theorem transpose_round_trip:
  assumes "length (shape a) = 3" and "length (stride a) = 3"
  shows "transpose_nd (transpose_nd a [1, 2, 0]) [2, 0, 1] = a
       \<and> get h (transpose_nd a [1, 2, 0]) [i, j, c] = get h a [c, i, j]"
  using assms
  by (cases a) (auto simp: transpose_nd_def get_def index_def length_Suc_conv numeral_3_eq_3 ac_simps)

theorem transpose_round_trip_witness:
  "transpose_nd (transpose_nd (mk_ndarray 0 [2, 5, 4]) [1, 2, 0]) [2, 0, 1] = mk_ndarray 0 [2, 5, 4]"
proof -
  have "length (shape (mk_ndarray 0 [2, 5, 4])) = 3"
    and "length (stride (mk_ndarray 0 [2, 5, 4])) = 3"
    by (simp_all add: mk_ndarray_def)
  from transpose_round_trip[OF this, THEN conjunct1] show ?thesis .
qed

subsection \<open>Padding\<close>

text \<open>
  Claim C9, as amended. In any mode but same, \<^verbatim>\<open>_padInput\<close> changes nothing. In same mode, on an
  input of shape [H, W, C], it allocates one new buffer and leaves every buffer that
  existed before as it was, the input's own among them; the new tensor has the shape
  [H + top + bottom, W + left + right, C], holds the input at offset (top, left, 0) and
  zero elsewhere, and the wrapper \<open>x\<close>, which the later steps read, now refers to it.
\<close>

theorem padInput_effect:
  fixes h :: "'a::zero heap"
  assumes "deref h x = Some xt" and "shape (tensor xt) = [H, W, C]"
    and "data (tensor xt) < length (bufs h)" and "0 \<le> H" "0 \<le> W" "0 \<le> C"
    and "inputPadding L = Some (pt, pb, pl, pr)" and "0 \<le> pt" "0 \<le> pb" "0 \<le> pl" "0 \<le> pr"
  shows "(borderMode L \<noteq> ''same'' \<longrightarrow> padInput L h x = Inr (h, x))
       \<and> (borderMode L = ''same'' \<longrightarrow>
           (\<exists>h'. padInput L h x = Inr (h', x)
              \<and> length (bufs h') = length (bufs h) + 1
              \<and> (\<forall>k<length (bufs h). buf h' k = buf h k)
              \<and> (\<forall>is. get h' (tensor xt) is = get h (tensor xt) is)
              \<and> deref h' x = Some (xt\<lparr>tensor := mk_ndarray (length (bufs h)) [H + pt + pb, W + pl + pr, C]\<rparr>)
              \<and> (\<forall>i j c. 0 \<le> i \<and> i < H + pt + pb \<and> 0 \<le> j \<and> j < W + pl + pr \<and> 0 \<le> c \<and> c < C \<longrightarrow>
                    get h' (mk_ndarray (length (bufs h)) [H + pt + pb, W + pl + pr, C]) [i, j, c] =
                      (if pt \<le> i \<and> i < pt + H \<and> pl \<le> j \<and> j < pl + W
                       then get h (tensor xt) [i - pt, j - pl, c] else 0))))"
proof (intro conjI impI)
  assume "borderMode L \<noteq> ''same''"
  then show "padInput L h x = Inr (h, x)" by (simp add: padInput_def)
next
  assume bm: "borderMode L = ''same''"
  let ?x' = "mk_ndarray (length (bufs h)) [H + pt + pb, W + pl + pr, C]"
  from padInput_same[OF bm assms]
  obtain h' where p: "padInput L h x = Inr (h', x)"
    and o: "objs h' = (objs h)[x := xt\<lparr>tensor := ?x'\<rparr>]"
    and l: "length (bufs h') = length (bufs h) + 1"
    and f: "\<forall>k<length (bufs h). buf h' k = buf h k"
    and g: "\<forall>i j c. 0 \<le> i \<and> i < H + pt + pb \<and> 0 \<le> j \<and> j < W + pl + pr \<and> 0 \<le> c \<and> c < C \<longrightarrow>
            get h' ?x' [i, j, c] =
              (if pt \<le> i \<and> i < pt + H \<and> pl \<le> j \<and> j < pl + W
               then get h (tensor xt) [i - pt, j - pl, c] else 0)"
    by (elim exE conjE)
  have xl: "x < length (objs h)"
    using assms(1) by (auto simp: deref_def split: if_splits)
  have d: "deref h' x = Some (xt\<lparr>tensor := ?x'\<rparr>)"
    using o xl by (simp add: deref_def)
  have s: "\<forall>is. get h' (tensor xt) is = get h (tensor xt) is"
  proof
    fix "is" show "get h' (tensor xt) is = get h (tensor xt) is"
      by (rule get_cong_buf) (use f assms(3) in simp)
  qed
  show "\<exists>h'. padInput L h x = Inr (h', x)
              \<and> length (bufs h') = length (bufs h) + 1
              \<and> (\<forall>k<length (bufs h). buf h' k = buf h k)
              \<and> (\<forall>is. get h' (tensor xt) is = get h (tensor xt) is)
              \<and> deref h' x = Some (xt\<lparr>tensor := ?x'\<rparr>)
              \<and> (\<forall>i j c. 0 \<le> i \<and> i < H + pt + pb \<and> 0 \<le> j \<and> j < W + pl + pr \<and> 0 \<le> c \<and> c < C \<longrightarrow>
                    get h' ?x' [i, j, c] =
                      (if pt \<le> i \<and> i < pt + H \<and> pl \<le> j \<and> j < pl + W
                       then get h (tensor xt) [i - pt, j - pl, c] else 0))"
  proof (intro exI conjI)
    show "padInput L h x = Inr (h', x)" by (rule p)
  qed (rule l f s d g)+
qed

theorem padInput_effect_witness:
  "\<exists>h'. padInput layer_same_1 heap5 0 = Inr (h', 0)
       \<and> length (bufs h') = 4
       \<and> buf h' 0 = buf heap5 0
       \<and> deref h' 0 = Some \<lparr>tensor = mk_ndarray 3 [7, 7, 1], useWeblas = False\<rparr>
       \<and> get h' (mk_ndarray 3 [7, 7, 1]) [0, 3, 0] = 0
       \<and> get h' (mk_ndarray 3 [7, 7, 1]) [2, 3, 0] = F 7"
proof -
  let ?xt = "\<lparr>tensor = mk_ndarray 0 [5, 5, 1], useWeblas = False\<rparr>"
  let ?x' = "mk_ndarray (length (bufs heap5)) [5 + 1 + 1, 5 + 1 + 1, 1]"
  let ?P = "\<lambda>h'. padInput layer_same_1 heap5 0 = Inr (h', 0)
      \<and> length (bufs h') = length (bufs heap5) + 1
      \<and> (\<forall>k<length (bufs heap5). buf h' k = buf heap5 k)
      \<and> (\<forall>is. get h' (tensor ?xt) is = get heap5 (tensor ?xt) is)
      \<and> deref h' 0 = Some (?xt\<lparr>tensor := ?x'\<rparr>)
      \<and> (\<forall>i j c. 0 \<le> i \<and> i < 5 + 1 + 1 \<and> 0 \<le> j \<and> j < 5 + 1 + 1 \<and> 0 \<le> c \<and> c < 1 \<longrightarrow>
           get h' ?x' [i, j, c] =
             (if 1 \<le> i \<and> i < 1 + 5 \<and> 1 \<le> j \<and> j < 1 + 5
              then get heap5 (tensor ?xt) [i - 1, j - 1, c] else 0))"
  have a: "deref heap5 0 = Some ?xt"
    by (simp add: heap5_def deref_def)
  have b: "shape (tensor ?xt) = [5, 5, 1]" and c: "data (tensor ?xt) < length (bufs heap5)"
    by (simp_all add: heap5_def)
  have p: "inputPadding layer_same_1 = Some (1, 1, 1, 1)" and m: "borderMode layer_same_1 = ''same''"
    by (simp_all add: layer_same_1_def)
  have v: "get heap5 (mk_ndarray 0 [5, 5, 1]) [1, 2, 0] = F 7"
    by (simp add: get_def index_def mk_ndarray_def heap5_def buf_def bread_def)
  have n: "length (bufs heap5) = 3" by (simp add: heap5_def)
  have z: "(0::int) \<le> 5" "(0::int) \<le> 1" by simp_all
  from padInput_effect[OF a b c z(1) z(1) z(2) p z(2) z(2) z(2) z(2), THEN conjunct2, rule_format, OF m]
  obtain h' where h': "?P h'" ..
  have g0: "get h' (mk_ndarray 3 [7, 7, 1]) [0, 3, 0] = 0"
    using h'[THEN conjunct2, THEN conjunct2, THEN conjunct2, THEN conjunct2, THEN conjunct2, rule_format, of 0 3 0]
    by (simp add: n)
  have g1: "get h' (mk_ndarray 3 [7, 7, 1]) [2, 3, 0] = F 7"
    using h'[THEN conjunct2, THEN conjunct2, THEN conjunct2, THEN conjunct2, THEN conjunct2, rule_format, of 2 3 0] v
    by (simp add: n)
  have b0: "buf h' 0 = buf heap5 0"
    using h'[THEN conjunct2, THEN conjunct2, THEN conjunct1, rule_format, of 0] n by simp
  have l: "length (bufs h') = 4"
    using h'[THEN conjunct2, THEN conjunct1] n by simp
  have d: "deref h' 0 = Some \<lparr>tensor = mk_ndarray 3 [7, 7, 1], useWeblas = False\<rparr>"
    using h'[THEN conjunct2, THEN conjunct2, THEN conjunct2, THEN conjunct2, THEN conjunct1] n by simp
  show ?thesis
    using h'[THEN conjunct1] l b0 d g0 g1 by blast
qed

text \<open>
  The claim as it was stated fails: in same mode \<^verbatim>\<open>_padInput\<close> returns the very wrapper it
  was given, and that wrapper no longer refers to the caller's array but to the padded
  one. The caller's Tensor object is changed in place; no new Tensor object is returned.
\<close>

theorem padInput_rebinds_wrapper_counterexample:
  "\<exists>h'. padInput layer_same_1 heap5 0 = Inr (h', 0)
       \<and> deref h' 0 = Some \<lparr>tensor = mk_ndarray 3 [7, 7, 1], useWeblas = False\<rparr>
       \<and> deref h' 0 \<noteq> deref heap5 0"
proof -
  let ?xt = "\<lparr>tensor = mk_ndarray 0 [5, 5, 1], useWeblas = False\<rparr>"
  have a: "deref heap5 0 = Some ?xt"
    by (simp add: heap5_def deref_def)
  have b: "shape (tensor ?xt) = [5, 5, 1]" and c: "data (tensor ?xt) < length (bufs heap5)"
    by (simp_all add: heap5_def)
  have p: "inputPadding layer_same_1 = Some (1, 1, 1, 1)" and m: "borderMode layer_same_1 = ''same''"
    by (simp_all add: layer_same_1_def)
  have z: "(0::int) \<le> 5" "(0::int) \<le> 1" by simp_all
  from padInput_same[OF m a b c z(1) z(1) z(2) p z(2) z(2) z(2) z(2)]
  obtain h' where r: "padInput layer_same_1 heap5 0 = Inr (h', 0)"
    and o: "objs h' = (objs heap5)[0 := ?xt\<lparr>tensor := mk_ndarray (length (bufs heap5)) [5 + 1 + 1, 5 + 1 + 1, 1]\<rparr>]"
    by (elim exE conjE)
  have d: "deref h' 0 = Some \<lparr>tensor = mk_ndarray 3 [7, 7, 1], useWeblas = False\<rparr>"
    by (simp add: deref_def o heap5_def eval_nat_numeral)
  have "deref h' 0 \<noteq> deref heap5 0"
    unfolding d a by (simp add: mk_ndarray_def)
  with r d show ?thesis by blast
qed

subsection \<open>The pipeline and the direct definition\<close>

lemma foldl_concat_map:
  "foldl g z (concat (map f xs)) = foldl (\<lambda>acc x. foldl g acc (f x)) z xs"
  by (induction xs arbitrary: z) simp_all

lemma foldl_indices3:
  "foldl g z (indices [kr, kc, C]) =
   foldl (\<lambda>acc di. foldl (\<lambda>acc dj. foldl (\<lambda>acc c. g acc [di, dj, c]) acc (map int [0..<nat C]))
                        acc (map int [0..<nat kc]))
     z (map int [0..<nat kr])"
  by (simp add: indices.simps(2) foldl_concat_map foldl_map comp_def del: upt_Suc)

lemma padded_input_cong:
  "buf h' (data X) = buf h (data X) \<Longrightarrow> padded_input h' X pt pl is = padded_input h X pt pl is"
proof -
  assume "buf h' (data X) = buf h (data X)"
  then have e: "get h' X = get h X" by (intro ext) (simp add: get_def)
  show ?thesis unfolding padded_input_def e by (rule refl)
qed

lemma weights_super_setWeights:
  assumes "params L = (if bias L then [''W'', ''b''] else [''W''])"
  shows "weights (super_setWeights L (w # rest)) ''W'' = Some w"
    and "bias L \<Longrightarrow> weights (super_setWeights L [w, b]) ''b'' = Some b"
  using assms by (simp_all add: super_setWeights_def)

lemma setWeights_tf:
  fixes h :: "'a::zero heap"
  assumes tf: "dimOrdering L \<noteq> ''th''"
    and p: "params L = (if bias L then [''W'', ''b''] else [''W''])"
    and W: "deref h w = Some wt" "shape (tensor wt) = [kr, kc, C, wf0]"
      "length (stride (tensor wt)) = 4" "data (tensor wt) < length (bufs h)"
    and k: "kernelShape L = (nf, kr, kc)" "0 \<le> kr" "0 \<le> kc" "0 \<le> C" "0 \<le> nf"
  shows "\<exists>h1. setWeights L h (w # rest) =
            Inr ((super_setWeights L (w # rest))\<lparr>wRowsMat := Some (mk_ndarray (length (bufs h)) [kr * kc * C, nf])\<rparr>, h1)
       \<and> objs h1 = objs h \<and> length (bufs h1) = length (bufs h) + 3
       \<and> (\<forall>k<length (bufs h). buf h1 k = buf h k)
       \<and> (\<forall>is\<in>set (indices [kr, kc, C]). \<forall>f. 0 \<le> f \<and> f < nf \<longrightarrow>
            get h1 (mk_ndarray (length (bufs h)) [kr * kc * C, nf]) [dot (strides [kr, kc, C]) is, f]
              = get h (tensor wt) (is @ [f]))"
proof -
  let ?L1 = "super_setWeights L (w # rest)"
  have w1: "weights ?L1 ''W'' = Some w" by (rule weights_super_setWeights(1)[OF p])
  have k1: "kernelShape ?L1 = (nf, kr, kc)" using k(1) by (simp add: super_setWeights_def)
  from w2row_spec[OF w1 W k1 k(2-5)]
  obtain h1 where r: "w2row ?L1 h = Inr (h1, mk_ndarray (length (bufs h)) [kr * kc * C, nf])"
    and o: "objs h1 = objs h" and l: "length (bufs h1) = length (bufs h) + 3"
    and f: "\<forall>k<length (bufs h). buf h1 k = buf h k"
    and g: "\<forall>is\<in>set (indices [kr, kc, C]). \<forall>f. 0 \<le> f \<and> f < nf \<longrightarrow>
            get h1 (mk_ndarray (length (bufs h)) [kr * kc * C, nf]) [dot (strides [kr, kc, C]) is, f]
              = get h (tensor wt) (is @ [f])"
    by (elim exE conjE)
  have "setWeights L h (w # rest) =
        Inr (?L1\<lparr>wRowsMat := Some (mk_ndarray (length (bufs h)) [kr * kc * C, nf])\<rparr>, h1)"
    using tf r by (simp add: setWeights_def ebind_def Let_def)
  then show ?thesis using o l f g by blast
qed

lemma weights_super_setWeights_b:
  assumes "params L = (if bias L then [''W'', ''b''] else [''W''])" and "bias L" and "rest \<noteq> []"
  shows "weights (super_setWeights L (w # rest)) ''b'' = Some (hd rest)"
  using assms by (simp add: super_setWeights_def hd_conv_nth)

lemma buffer_row_major:
  assumes len: "int (length B) = prod_list S" and nn: "\<forall>n\<in>set S. 0 \<le> n"
  shows "B = map (\<lambda>is. bread B (dot (strides S) is)) (indices S)"
proof -
  have "B = map (\<lambda>n. bread B (int n)) [0..<length B]"
    by (rule nth_equalityI) (simp_all add: bread_def)
  also have "\<dots> = map (bread B) (map int [0..<nat (prod_list S)])"
    using len by (simp add: comp_def flip: len)
  also have "\<dots> = map (bread B) (map (dot (strides S)) (indices S))"
    by (simp only: map_dot_indices[OF nn])
  finally show ?thesis by (simp add: comp_def)
qed

lemma calcOutputShape_fields:
  assumes "calcOutputShape L' X = Inr L2'"
    and "kernelShape L' = kernelShape L" "subsample L' = subsample L" "borderMode L' = borderMode L"
  shows "\<exists>L2. calcOutputShape L X = Inr L2 \<and> outputShape L2 = outputShape L2'
              \<and> inputPadding L2 = inputPadding L2'"
  using assms
  by (auto simp: calcOutputShape_def Let_def split: list.splits prod.splits if_splits)

lemma conv_pipeline:
  fixes h :: "'a::{zero,plus,times} heap"
  assumes k: "kernelShape L = (nf, kr, kc)" "0 < nf" "0 < kr" "0 < kc"
    and s: "subsample L = (s0, s1)" "0 < s0" "0 < s1"
    and bm: "borderMode L = ''valid'' \<or> borderMode L = ''same''"
    and tf: "dimOrdering L \<noteq> ''th''"
    and act: "activation L = Some act"
    and p: "params L = (if bias L then [''W'', ''b''] else [''W''])"
    and W: "deref h w = Some wt" "shape (tensor wt) = [kr, kc, C, wf0]"
      "length (stride (tensor wt)) = 4" "data (tensor wt) < length (bufs h)"
    and b: "bias L \<longrightarrow> rest \<noteq> [] \<and> hd rest \<noteq> x \<and> deref h (hd rest) = Some bt
              \<and> data (tensor bt) < length (bufs h)"
    and x: "deref h x = Some xt" "shape (tensor xt) = [H, W, C]" "length (stride (tensor xt)) = 3"
      "data (tensor xt) < length (bufs h)" "0 < H" "0 < W" "0 < C"
    and fit: "borderMode L = ''valid'' \<longrightarrow> kr \<le> H \<and> kc \<le> W"
    and wb: "useWeblas xt \<longrightarrow> sg = sgemm_spec
               \<and> (bias L \<longrightarrow> stride (tensor bt) = [1] \<and> offset (tensor bt) = 0)"
  shows "\<exists>Lc L1 h1 L2 h2 oR oC pt pb pl pr No.
           calcOutputShape L (tensor xt) = Inr Lc
         \<and> outputShape Lc = Some [oR, oC, nf] \<and> inputPadding Lc = Some (pt, pb, pl, pr)
         \<and> setWeights L h (w # rest) = Inr (L1, h1)
         \<and> outputShape L2 = Some [oR, oC, nf] \<and> inputPadding L2 = Some (pt, pb, pl, pr)
         \<and> call sg L1 h1 x = Inr (L2, h2, x)
         \<and> length (bufs h) \<le> No
         \<and> deref h2 x = Some (xt\<lparr>tensor := mk_ndarray No [oR, oC, nf]\<rparr>)
         \<and> buf h2 No =
             act (map (direct_conv (padded_input h (tensor xt) pt pl) (get h (tensor wt))
                         (\<lambda>f. if bias L then get h (tensor bt) [f] else 0) (kr, kc, C) (s0, s1))
                      (indices [oR, oC, nf]))"
proof -
  let ?wr = "mk_ndarray (length (bufs h)) [kr * kc * C, nf]"
  let ?L1 = "(super_setWeights L (w # rest))\<lparr>wRowsMat := Some ?wr\<rparr>"
  let ?S3 = "[kr, kc, C]"
  from setWeights_tf[OF tf p W k(1), of rest] k(2-4) x(7)
  obtain h1 where sw: "setWeights L h (w # rest) = Inr (?L1, h1)"
    and o1: "objs h1 = objs h" and l1: "length (bufs h1) = length (bufs h) + 3"
    and f1: "\<forall>k<length (bufs h). buf h1 k = buf h k"
    and g1: "\<forall>is\<in>set (indices ?S3). \<forall>f. 0 \<le> f \<and> f < nf \<longrightarrow>
            get h1 ?wr [dot (strides ?S3) is, f] = get h (tensor wt) (is @ [f])"
    by auto
  have k1: "kernelShape ?L1 = (nf, kr, kc)" using k(1) by (simp add: super_setWeights_def)
  have s1: "subsample ?L1 = (s0, s1)" using s(1) by (simp add: super_setWeights_def)
  have bm1: "borderMode ?L1 = ''valid'' \<or> borderMode ?L1 = ''same''"
    using bm by (simp add: super_setWeights_def)
  have tf1: "dimOrdering ?L1 \<noteq> ''th''" using tf by (simp add: super_setWeights_def)
  have act1: "activation ?L1 = Some act" using act by (simp add: super_setWeights_def)
  have wr1: "wRowsMat ?L1 = Some ?wr" "data ?wr < length (bufs h1)"
    "?wr = mk_ndarray (data ?wr) [kr * kc * C, nf]" using l1 by simp_all
  have bi1: "bias ?L1 = bias L" by (simp add: super_setWeights_def)
  have dr: "\<And>r. deref h1 r = deref h r" by (simp add: deref_def o1)
  have b1: "bias ?L1 \<longrightarrow> weights ?L1 ''b'' = Some (hd rest) \<and> hd rest \<noteq> x
              \<and> deref h1 (hd rest) = Some bt \<and> data (tensor bt) < length (bufs h1)"
  proof
    assume "bias ?L1"
    then have bl: "bias L" by (simp add: bi1)
    have "weights (super_setWeights L (w # rest)) ''b'' = Some (hd rest)"
      using weights_super_setWeights_b[OF p bl] b bl by simp
    then show "weights ?L1 ''b'' = Some (hd rest) \<and> hd rest \<noteq> x
              \<and> deref h1 (hd rest) = Some bt \<and> data (tensor bt) < length (bufs h1)"
      using b bl l1 by (simp add: dr)
  qed
  have x1: "deref h1 x = Some xt" "data (tensor xt) < length (bufs h1)"
    using x(1,4) l1 by (simp_all add: dr)
  have fit1: "borderMode ?L1 = ''valid'' \<longrightarrow> kr \<le> H \<and> kc \<le> W"
    using fit by (simp add: super_setWeights_def)
  have wb1: "useWeblas xt \<longrightarrow> sg = sgemm_spec
               \<and> (bias ?L1 \<longrightarrow> stride (tensor bt) = [1] \<and> offset (tensor bt) = 0)"
    using wb by (simp add: bi1)
  from call_spec[OF k1 k(2-4) s1 s(2,3) bm1 tf1 act1 wr1 b1 x1(1) x(2,3) x1(2) x(5-7) fit1 wb1]
  obtain L2 oR oC pt pb pl pr h2 No B where
        c: "calcOutputShape ?L1 (tensor xt) = Inr L2"
    and L2: "L2 = ?L1\<lparr>outputShape := Some [oR, oC, nf], inputPadding := Some (pt, pb, pl, pr)\<rparr>"
    and cl: "call sg ?L1 h1 x = Inr (L2, h2, x)" and pos: "0 < oR" "0 < oC"
    and No: "length (bufs h1) \<le> No" "No < length (bufs h2)"
    and o2: "objs h2 = (objs h1)[x := xt\<lparr>tensor := mk_ndarray No [oR, oC, nf]\<rparr>]"
    and f2: "\<forall>k<length (bufs h1). buf h2 k = buf h1 k"
    and B: "buf h2 No = act B" "int (length B) = oR * oC * nf"
    and rd: "\<forall>a b f. 0 \<le> a \<and> a < oR \<and> 0 \<le> b \<and> b < oC \<and> 0 \<le> f \<and> f < nf \<longrightarrow>
                  bread B (dot (strides [oR, oC, nf]) [a, b, f]) =
                    foldl (\<lambda>acc is. acc + padded_input h1 (tensor xt) pt pl [a * s0 + is ! 0, b * s1 + is ! 1, is ! 2]
                                          * get h1 ?wr [dot (strides ?S3) is, f])
                      (if bias ?L1 then get h1 (tensor bt) [f] else 0) (indices ?S3)"
    by (elim exE conjE)
  let ?D = "direct_conv (padded_input h (tensor xt) pt pl) (get h (tensor wt))
              (\<lambda>f. if bias L then get h (tensor bt) [f] else 0) (kr, kc, C) (s0, s1)"
  have pi: "padded_input h1 (tensor xt) pt pl = padded_input h (tensor xt) pt pl"
    by (intro ext padded_input_cong) (use f1 x(4) in simp)
  have gb: "bias L \<Longrightarrow> get h1 (tensor bt) = get h (tensor bt)"
    using b f1 by (intro ext) (simp add: get_def)
  have el: "bread B (dot (strides [oR, oC, nf]) is) = ?D is" if m: "is \<in> set (indices [oR, oC, nf])" for "is"
  proof -
    from m obtain a b f where e: "is = [a, b, f]" and r: "0 \<le> a" "a < oR" "0 \<le> b" "b < oC" "0 \<le> f" "f < nf"
      by (auto simp: set_indices_Cons)
    have "bread B (dot (strides [oR, oC, nf]) [a, b, f]) =
          foldl (\<lambda>acc is. acc + padded_input h1 (tensor xt) pt pl [a * s0 + is ! 0, b * s1 + is ! 1, is ! 2]
                                          * get h1 ?wr [dot (strides ?S3) is, f])
                 (if bias ?L1 then get h1 (tensor bt) [f] else 0) (indices ?S3)"
      using rd r by blast
    also have "\<dots> = foldl (\<lambda>acc is. acc + padded_input h (tensor xt) pt pl [a * s0 + is ! 0, b * s1 + is ! 1, is ! 2]
                                          * get h (tensor wt) (is @ [f]))
                 (if bias L then get h (tensor bt) [f] else 0) (indices ?S3)"
    proof (rule foldl_cong)
      show "(if bias ?L1 then get h1 (tensor bt) [f] else 0) = (if bias L then get h (tensor bt) [f] else 0)"
        using gb by (simp add: bi1)
      show "indices ?S3 = indices ?S3" by (rule refl)
      fix acc :: "'a f32" and js
      assume "js \<in> set (indices ?S3)"
      then have "get h1 ?wr [dot (strides ?S3) js, f] = get h (tensor wt) (js @ [f])"
        using g1 r by blast
      then show "acc + padded_input h1 (tensor xt) pt pl [a * s0 + js ! 0, b * s1 + js ! 1, js ! 2]
                        * get h1 ?wr [dot (strides ?S3) js, f] =
                 acc + padded_input h (tensor xt) pt pl [a * s0 + js ! 0, b * s1 + js ! 1, js ! 2]
                        * get h (tensor wt) (js @ [f])"
        by (simp add: pi)
    qed
    also have "\<dots> = ?D [a, b, f]"
      by (simp add: foldl_indices3 direct_conv_def)
    finally show ?thesis by (simp add: e)
  qed
  have "B = map (\<lambda>is. bread B (dot (strides [oR, oC, nf]) is)) (indices [oR, oC, nf])"
    by (rule buffer_row_major) (use B(2) pos k(2) in \<open>auto simp: mult.assoc\<close>)
  also have "\<dots> = map ?D (indices [oR, oC, nf])"
    by (rule map_cong[OF refl]) (rule el)
  finally have Bd: "B = map ?D (indices [oR, oC, nf])" .
  have xl: "x < length (objs h)" using x(1) by (auto simp: deref_def split: if_splits)
  from calcOutputShape_fields[OF c, of L]
  obtain Lc where Lc: "calcOutputShape L (tensor xt) = Inr Lc" "outputShape Lc = outputShape L2"
      "inputPadding Lc = inputPadding L2"
    by (auto simp: super_setWeights_def)
  show ?thesis
  proof (intro exI conjI)
    show "calcOutputShape L (tensor xt) = Inr Lc" by (rule Lc(1))
    show "outputShape Lc = Some [oR, oC, nf]" by (simp add: Lc(2) L2)
    show "inputPadding Lc = Some (pt, pb, pl, pr)" by (simp add: Lc(3) L2)
    show "setWeights L h (w # rest) = Inr (?L1, h1)" by (rule sw)
    show "outputShape L2 = Some [oR, oC, nf]" by (simp add: L2)
    show "inputPadding L2 = Some (pt, pb, pl, pr)" by (simp add: L2)
    show "call sg ?L1 h1 x = Inr (L2, h2, x)" by (rule cl)
    show "length (bufs h) \<le> No" using No(1) l1 by simp
    show "deref h2 x = Some (xt\<lparr>tensor := mk_ndarray No [oR, oC, nf]\<rparr>)"
      using xl by (simp add: deref_def o2 o1)
    show "buf h2 No = act (map ?D (indices [oR, oC, nf]))"
      using B(1) Bd by simp
  qed
qed

lemma call_kernel_exceeds:
  fixes h :: "'a::{zero,plus,times} heap"
  assumes x: "deref h x = Some xt" "shape (tensor xt) = [H, W, C]"
    and L: "dimOrdering L \<noteq> ''th''" "borderMode L = ''valid''" "kernelShape L = (nf, kr, kc)"
      "subsample L = (s0, s1)" "s0 \<noteq> 0" "s1 \<noteq> 0"
    and neg: "((H - kr + s0) div s0) * ((W - kc + s1) div s1) * (kr * kc * C) < 0"
  shows "call sg L h x = Inl RangeError"
proof -
  have xr: "objs h ! x = xt" using x(1) by (auto simp: deref_def split: if_splits)
  let ?L1 = "L\<lparr>outputShape := Some [(H - kr + s0) div s0, (W - kc + s1) div s1, nf],
                inputPadding := Some (0, 0, 0, 0)\<rparr>"
  have c: "calcOutputShape L (tensor xt) = Inr ?L1"
    using L x(2) by (simp add: calcOutputShape_def Let_def del: div_add_self2)
  have p: "padInput ?L1 h x = Inr (h, x)" using L by (simp add: padInput_def)
  have i: "im2col ?L1 h x = Inl RangeError"
    using x L neg
    by (simp add: im2col_def newTensor_def Let_def ebind_def foldl_times_prod mult.assoc del: div_add_self2)
  show ?thesis
    using x(1) L(1) by (simp add: call_def xr c p i ebind_def)
qed

subsection \<open>The convolution\<close>

text \<open>
  Claim C1, as amended. Take a layer in channels-last order with a kernel of positive size
  [kr, kc] and nf filters, positive strides and either border mode, weights \<open>w\<close> of shape
  [kr, kc, C, _] where C is the channel count of the input, and an input of positive shape
  [H, W, C]; in valid mode let the kernel fit into the input (kr \<le> H and kc \<le> W). The
  input takes the reference multiplication, or it takes the accelerated one and the
  accelerated routine meets its contract \<open>sgemm_spec\<close> (the bias then being a plain vector).
  Then \<^verbatim>\<open>setWeights\<close> followed by \<^verbatim>\<open>call\<close> returns, the wrapper \<open>x\<close> refers to a new tensor of
  the shape [oR, oC, nf] that \<^verbatim>\<open>_calcOutputShape\<close> computes, and the buffer of that tensor is
  the activation applied to the values of the direct definition of the convolution of the
  zero-padded input, in row-major order. The element arithmetic is a parameter of which no
  law is used: the pipeline and the direct loops add the same products in the same order,
  so the two are equal whatever the rounding, and no tolerance is needed.
\<close>

theorem pipeline_equals_direct_convolution:
  fixes h :: "'a::{zero,plus,times} heap"
  assumes "kernelShape L = (nf, kr, kc)" "0 < nf" "0 < kr" "0 < kc"
    and "subsample L = (s0, s1)" "0 < s0" "0 < s1"
    and "borderMode L = ''valid'' \<or> borderMode L = ''same''"
    and "dimOrdering L \<noteq> ''th''"
    and "activation L = Some act"
    and "params L = (if bias L then [''W'', ''b''] else [''W''])"
    and "deref h w = Some wt" "shape (tensor wt) = [kr, kc, C, wf0]"
      "length (stride (tensor wt)) = 4" "data (tensor wt) < length (bufs h)"
    and "bias L \<longrightarrow> rest \<noteq> [] \<and> hd rest \<noteq> x \<and> deref h (hd rest) = Some bt
              \<and> data (tensor bt) < length (bufs h)"
    and "deref h x = Some xt" "shape (tensor xt) = [H, W, C]" "length (stride (tensor xt)) = 3"
      "data (tensor xt) < length (bufs h)" "0 < H" "0 < W" "0 < C"
    and "borderMode L = ''valid'' \<longrightarrow> kr \<le> H \<and> kc \<le> W"
    and "useWeblas xt \<longrightarrow> sg = sgemm_spec
               \<and> (bias L \<longrightarrow> stride (tensor bt) = [1] \<and> offset (tensor bt) = 0)"
  shows "\<exists>Lc L1 h1 L2 h2 oR oC pt pb pl pr No.
           calcOutputShape L (tensor xt) = Inr Lc
         \<and> outputShape Lc = Some [oR, oC, nf] \<and> inputPadding Lc = Some (pt, pb, pl, pr)
         \<and> setWeights L h (w # rest) = Inr (L1, h1)
         \<and> outputShape L2 = Some [oR, oC, nf] \<and> inputPadding L2 = Some (pt, pb, pl, pr)
         \<and> call sg L1 h1 x = Inr (L2, h2, x)
         \<and> length (bufs h) \<le> No
         \<and> deref h2 x = Some (xt\<lparr>tensor := mk_ndarray No [oR, oC, nf]\<rparr>)
         \<and> buf h2 No =
             act (map (direct_conv (padded_input h (tensor xt) pt pl) (get h (tensor wt))
                         (\<lambda>f. if bias L then get h (tensor bt) [f] else 0) (kr, kc, C) (s0, s1))
                      (indices [oR, oC, nf]))"
  by (rule conv_pipeline[OF assms])

theorem pipeline_equals_direct_convolution_witness:
  "\<exists>L1 h1 L2 h2 No.
       setWeights (layer_same_2\<lparr>activation := Some (\<lambda>v. v)\<rparr>) heap5_weblas [1, 2] = Inr (L1, h1)
     \<and> call sgemm_spec L1 h1 0 = Inr (L2, h2, 0)
     \<and> outputShape L2 = Some [3, 3, 1] \<and> inputPadding L2 = Some (1, 1, 1, 1)
     \<and> deref h2 0 = Some \<lparr>tensor = mk_ndarray No [3, 3, 1], useWeblas = True\<rparr>
     \<and> buf h2 No = [F 12, F 27, F 24, F 63, F 108, F 81, F 72, F 117, F 84]"
proof -
  let ?L = "layer_same_2\<lparr>activation := Some (\<lambda>v. v)\<rparr>"
  let ?xt = "\<lparr>tensor = mk_ndarray 0 [5, 5, 1], useWeblas = True\<rparr>"
  let ?wt = "\<lparr>tensor = mk_ndarray 1 [3, 3, 1, 1], useWeblas = False\<rparr>"
  let ?bt = "\<lparr>tensor = mk_ndarray 2 [1], useWeblas = False\<rparr>"
  let ?h = "heap5_weblas"
  have k: "kernelShape ?L = (1, 3, 3)" "subsample ?L = (2, 2)"
      "borderMode ?L = ''valid'' \<or> borderMode ?L = ''same''" "dimOrdering ?L \<noteq> ''th''"
      "activation ?L = Some (\<lambda>v. v)" "params ?L = (if bias ?L then [''W'', ''b''] else [''W''])"
      "borderMode ?L = ''valid'' \<longrightarrow> (3::int) \<le> 5 \<and> (3::int) \<le> 5"
    by (simp_all add: layer_same_2_def)
  have w: "deref ?h 1 = Some ?wt" "shape (tensor ?wt) = [3, 3, 1, 1]"
      "length (stride (tensor ?wt)) = 4" "data (tensor ?wt) < length (bufs ?h)"
    by (simp_all add: heap5_weblas_def heap5_def deref_def)
  have b: "bias ?L \<longrightarrow> [2::nat] \<noteq> [] \<and> hd [2::nat] \<noteq> 0 \<and> deref ?h (hd [2]) = Some ?bt
             \<and> data (tensor ?bt) < length (bufs ?h)"
    by (simp add: heap5_weblas_def heap5_def deref_def)
  have x: "deref ?h 0 = Some ?xt" "shape (tensor ?xt) = [5, 5, 1]"
      "length (stride (tensor ?xt)) = 3" "data (tensor ?xt) < length (bufs ?h)"
    by (simp_all add: heap5_weblas_def heap5_def deref_def)
  have a: "useWeblas ?xt \<longrightarrow> (sgemm_spec :: int sgemm) = sgemm_spec
               \<and> (bias ?L \<longrightarrow> stride (tensor ?bt) = [1] \<and> offset (tensor ?bt) = 0)"
    by (simp add: mk_ndarray_def)
  have z: "(0::int) < 1" "(0::int) < 3" "(0::int) < 2" "(0::int) < 5" by simp_all
  from pipeline_equals_direct_convolution[OF k(1) z(1) z(2) z(2) k(2) z(3) z(3) k(3) k(4) k(5) k(6)
      w b x(1-4) z(4) z(4) z(1) k(7) a]
  obtain Lc L1 h1 L2 h2 oR oC pt pb pl pr No where
        c: "calcOutputShape ?L (tensor ?xt) = Inr Lc"
    and sc: "outputShape Lc = Some [oR, oC, 1]" "inputPadding Lc = Some (pt, pb, pl, pr)"
    and sw: "setWeights ?L ?h [1, 2] = Inr (L1, h1)"
    and s2: "outputShape L2 = Some [oR, oC, 1]" "inputPadding L2 = Some (pt, pb, pl, pr)"
    and cl: "call sgemm_spec L1 h1 0 = Inr (L2, h2, 0)"
    and d: "deref h2 0 = Some (?xt\<lparr>tensor := mk_ndarray No [oR, oC, 1]\<rparr>)"
    and v: "buf h2 No =
             (\<lambda>v. v) (map (direct_conv (padded_input ?h (tensor ?xt) pt pl) (get ?h (tensor ?wt))
                         (\<lambda>f. if bias ?L then get ?h (tensor ?bt) [f] else 0) (3, 3, 1) (2, 2))
                      (indices [oR, oC, 1]))"
    by (elim exE conjE)
  have "calcOutputShape ?L (tensor ?xt) =
        Inr (?L\<lparr>outputShape := Some [3, 3, 1], inputPadding := Some (1, 1, 1, 1)\<rparr>)"
    by (simp add: calcOutputShape_def layer_same_2_def mk_ndarray_def Let_def)
  with c sc have e: "oR = 3" "oC = 3" "pt = 1" "pb = 1" "pl = 1" "pr = 1" by auto
  have "buf h2 No = [F 12, F 27, F 24, F 63, F 108, F 81, F 72, F 117, F 84]"
    unfolding v e
    by (simp add: indices.simps(2) direct_conv_def padded_input_def get_def index_def mk_ndarray_def
        heap5_weblas_def heap5_def buf_def bread_def plus_f32_def times_f32_def zero_f32_def
        upt_rec[of _ "numeral _"] upt_rec[of 0 "Suc _"] nat_numeral layer_same_2_def)
  then show ?thesis using sw cl s2 d e by auto
qed

text \<open>
  The claim as it was stated fails on an input of positive shape: in valid mode, on an
  input of one row and five columns, the layer with a kernel of 3 by 3 computes -1 output
  rows and 3 output columns, and \<^verbatim>\<open>_im2col\<close> cannot allocate a matrix of -3 rows.
\<close>

theorem pipeline_kernel_exceeds_input_counterexample:
  "\<exists>L L1 h1. constructor linear_only attrs_valid_1 = Inr L
      \<and> setWeights L heap_thin [1, 2] = Inr (L1, h1)
      \<and> call no_weblas L1 h1 0 = Inl RangeError"
proof -
  let ?L = "\<lparr>name = None, layerClass = ''Convolution2D'', kernelShape = (1, 3, 3),
             activation = Some (\<lambda>v. v), borderMode = ''valid'', subsample = (1, 1),
             dimOrdering = ''tf'', bias = True, params = [''W'', ''b''], weights = (\<lambda>p. None),
             wRowsMat = None, outputShape = None, inputPadding = None\<rparr> :: int layer"
  let ?wt = "\<lparr>tensor = mk_ndarray 1 [3, 3, 1, 1], useWeblas = False\<rparr>"
  let ?xt = "\<lparr>tensor = mk_ndarray 0 [1, 5, 1], useWeblas = False\<rparr>"
  have c: "constructor linear_only attrs_valid_1 = Inr ?L"
    by (simp add: constructor_def attrs_valid_1_def linear_only_def default_def Let_def)
  have w: "deref heap_thin 1 = Some ?wt" "shape (tensor ?wt) = [3, 3, 1, 1]"
      "length (stride (tensor ?wt)) = 4" "data (tensor ?wt) < length (bufs heap_thin)"
    by (simp_all add: heap_thin_def deref_def)
  have "dimOrdering ?L \<noteq> ''th''" "params ?L = (if bias ?L then [''W'', ''b''] else [''W''])"
      "kernelShape ?L = (1, 3, 3)"
    by simp_all
  from setWeights_tf[OF this(1,2) w this(3), of "[2]"]
  obtain h1 where sw: "setWeights ?L heap_thin [1, 2] =
        Inr ((super_setWeights ?L [1, 2])\<lparr>wRowsMat := Some (mk_ndarray (length (bufs heap_thin)) [3 * 3 * 1, 1])\<rparr>, h1)"
    and o: "objs h1 = objs heap_thin"
    by auto
  let ?L1 = "(super_setWeights ?L [1, 2])\<lparr>wRowsMat := Some (mk_ndarray (length (bufs heap_thin)) [3 * 3 * 1, 1])\<rparr>"
  have x: "deref h1 0 = Some ?xt" by (simp add: deref_def o heap_thin_def)
  have "call no_weblas ?L1 h1 0 = Inl RangeError"
    by (rule call_kernel_exceeds[OF x, where H = 1 and W = 5 and C = 1 and nf = 1 and kr = 3 and kc = 3
          and ?s0.0 = 1 and ?s1.0 = 1])
       (simp_all add: super_setWeights_def)
  with c sw show ?thesis by blast
qed

text \<open>
  Claim C5. The layer of one 3 by 3 filter with stride 1 in valid mode, given a kernel of
  ones and a zero bias, turns the 5 by 5 by 1 input of the values 0 to 24 into a tensor
  of shape [3, 3, 1] whose values are the sums of the 3 by 3 neighbourhoods; the first
  one, at [0, 0, 0], is 54.
\<close>

theorem scenario_5x5_valid:
  "\<exists>L L1 h1 L2 h2 out.
       constructor linear_only attrs_valid_1 = Inr L
     \<and> setWeights L heap5 [1, 2] = Inr (L1, h1)
     \<and> call sg L1 h1 0 = Inr (L2, h2, 0)
     \<and> deref h2 0 = Some out \<and> shape (tensor out) = [3, 3, 1]
     \<and> tensor_values h2 (tensor out) = [F 54, F 63, F 72, F 99, F 108, F 117, F 144, F 153, F 162]
     \<and> get h2 (tensor out) [0, 0, 0] = F (0 + 1 + 2 + 5 + 6 + 7 + 10 + 11 + 12)"
proof -
  let ?L = "\<lparr>name = None, layerClass = ''Convolution2D'', kernelShape = (1, 3, 3),
             activation = Some (\<lambda>v. v), borderMode = ''valid'', subsample = (1, 1),
             dimOrdering = ''tf'', bias = True, params = [''W'', ''b''], weights = (\<lambda>p. None),
             wRowsMat = None, outputShape = None, inputPadding = None\<rparr> :: int layer"
  let ?xt = "\<lparr>tensor = mk_ndarray 0 [5, 5, 1], useWeblas = False\<rparr>"
  let ?wt = "\<lparr>tensor = mk_ndarray 1 [3, 3, 1, 1], useWeblas = False\<rparr>"
  let ?bt = "\<lparr>tensor = mk_ndarray 2 [1], useWeblas = False\<rparr>"
  have c0: "constructor linear_only attrs_valid_1 = Inr ?L"
    by (simp add: constructor_def attrs_valid_1_def linear_only_def default_def Let_def)
  have k: "kernelShape ?L = (1, 3, 3)" "subsample ?L = (1, 1)"
      "borderMode ?L = ''valid'' \<or> borderMode ?L = ''same''" "dimOrdering ?L \<noteq> ''th''"
      "activation ?L = Some (\<lambda>v. v)" "params ?L = (if bias ?L then [''W'', ''b''] else [''W''])"
      "borderMode ?L = ''valid'' \<longrightarrow> (3::int) \<le> 5 \<and> (3::int) \<le> 5"
    by simp_all
  have w: "deref heap5 1 = Some ?wt" "shape (tensor ?wt) = [3, 3, 1, 1]"
      "length (stride (tensor ?wt)) = 4" "data (tensor ?wt) < length (bufs heap5)"
    by (simp_all add: heap5_def deref_def)
  have b: "bias ?L \<longrightarrow> [2::nat] \<noteq> [] \<and> hd [2::nat] \<noteq> 0 \<and> deref heap5 (hd [2]) = Some ?bt
             \<and> data (tensor ?bt) < length (bufs heap5)"
    by (simp add: heap5_def deref_def)
  have x: "deref heap5 0 = Some ?xt" "shape (tensor ?xt) = [5, 5, 1]"
      "length (stride (tensor ?xt)) = 3" "data (tensor ?xt) < length (bufs heap5)"
      "useWeblas ?xt \<longrightarrow> sg = sgemm_spec
         \<and> (bias ?L \<longrightarrow> stride (tensor ?bt) = [1] \<and> offset (tensor ?bt) = 0)"
    by (simp_all add: heap5_def deref_def)
  have z: "(0::int) < 1" "(0::int) < 3" "(0::int) < 5" by simp_all
  from conv_pipeline[OF k(1) z(1) z(2) z(2) k(2) z(1) z(1) k(3) k(4) k(5) k(6)
      w b x(1-4) z(3) z(3) z(1) k(7) x(5)]
  obtain Lc L1 h1 L2 h2 oR oC pt pb pl pr No where
        c: "calcOutputShape ?L (tensor ?xt) = Inr Lc"
    and sc: "outputShape Lc = Some [oR, oC, 1]" "inputPadding Lc = Some (pt, pb, pl, pr)"
    and sw: "setWeights ?L heap5 [1, 2] = Inr (L1, h1)"
    and s2: "outputShape L2 = Some [oR, oC, 1]" "inputPadding L2 = Some (pt, pb, pl, pr)"
    and cl: "call sg L1 h1 0 = Inr (L2, h2, 0)"
    and d: "deref h2 0 = Some (?xt\<lparr>tensor := mk_ndarray No [oR, oC, 1]\<rparr>)"
    and v: "buf h2 No =
             (\<lambda>v. v) (map (direct_conv (padded_input heap5 (tensor ?xt) pt pl) (get heap5 (tensor ?wt))
                         (\<lambda>f. if bias ?L then get heap5 (tensor ?bt) [f] else 0) (3, 3, 1) (1, 1))
                      (indices [oR, oC, 1]))"
    by (elim exE conjE)
  have "calcOutputShape ?L (tensor ?xt) =
        Inr (?L\<lparr>outputShape := Some [3, 3, 1], inputPadding := Some (0, 0, 0, 0)\<rparr>)"
    by (simp add: calcOutputShape_def mk_ndarray_def Let_def)
  with c sc have e: "oR = 3" "oC = 3" "pt = 0" "pb = 0" "pl = 0" "pr = 0" by auto
  let ?vs = "[F 54, F 63, F 72, F 99, F 108, F 117, F 144, F 153, F 162] :: int f32 list"
  have bv: "buf h2 No = ?vs"
    unfolding v e
    by (simp add: indices.simps(2) direct_conv_def padded_input_def get_def index_def mk_ndarray_def
        heap5_def buf_def bread_def plus_f32_def times_f32_def zero_f32_def upt_rec[of _ "numeral _"]
        upt_rec[of 0 "Suc _"] nat_numeral)
  let ?out = "?xt\<lparr>tensor := mk_ndarray No [3, 3, 1]\<rparr>"
  have tv: "tensor_values h2 (tensor ?out) = ?vs"
    by (simp add: tensor_values_def indices.simps(2) get_def index_def mk_ndarray_def bv bread_def
        upt_rec[of _ "numeral _"] upt_rec[of 0 "Suc _"] nat_numeral)
  have g0: "get h2 (tensor ?out) [0, 0, 0] = F (0 + 1 + 2 + 5 + 6 + 7 + 10 + 11 + 12)"
    by (simp add: get_def index_def mk_ndarray_def bv bread_def)
  show ?thesis
  proof (intro exI conjI)
    show "constructor linear_only attrs_valid_1 = Inr ?L" by (rule c0)
    show "setWeights ?L heap5 [1, 2] = Inr (L1, h1)" by (rule sw)
    show "call sg L1 h1 0 = Inr (L2, h2, 0)" by (rule cl)
    show "deref h2 0 = Some ?out" using d e by simp
    show "shape (tensor ?out) = [3, 3, 1]" by simp
    show "tensor_values h2 (tensor ?out) = ?vs" by (rule tv)
    show "get h2 (tensor ?out) [0, 0, 0] = F (0 + 1 + 2 + 5 + 6 + 7 + 10 + 11 + 12)" by (rule g0)
  qed
qed

subsection \<open>The frame of the forward computation\<close>

lemma frame_refl: "frame N h h"
  by (simp add: frame_def)

lemma frame_trans: "frame N h h' \<Longrightarrow> frame N h' h'' \<Longrightarrow> frame N h h''"
  by (auto simp: frame_def)

lemma frame_set_el: "N \<le> data a \<Longrightarrow> frame N h (set_el h a is v)"
  by (simp add: frame_def set_el_def buf_def)

lemma frame_foldl:
  assumes "\<And>h x. frame N h (f h x)"
  shows "frame N h (foldl f h xs)"
proof (induction xs arbitrary: h)
  case Nil
  show ?case by (simp add: frame_refl)
next
  case (Cons x xs)
  have "frame N h (f h x)" by (rule assms)
  moreover have "frame N (f h x) (foldl f (f h x) xs)" by (rule Cons.IH)
  ultimately show ?case by (simp add: frame_trans)
qed

lemma frame_assign_loop: "N \<le> data dst \<Longrightarrow> frame N h (assign_loop h dst src)"
  unfolding assign_loop_def by (rule frame_foldl) (rule frame_set_el)

lemma frame_assign: "assign h dst src = Inr h' \<Longrightarrow> N \<le> data dst \<Longrightarrow> frame N h h'"
  by (auto simp: assign_def frame_assign_loop split: if_splits)

lemma frame_assigns: "N \<le> data dst \<Longrightarrow> frame N h (assigns h dst v)"
  unfolding assigns_def by (rule frame_foldl) (rule frame_set_el)

lemma frame_gemm_loop: "N \<le> data c \<Longrightarrow> frame N h (gemm_loop h c a b)"
  unfolding gemm_loop_def
  by (auto split: list.splits intro!: frame_foldl frame_set_el frame_refl)

lemma frame_gemm: "gemm h c a b = Inr h' \<Longrightarrow> N \<le> data c \<Longrightarrow> frame N h h'"
  by (auto simp: gemm_def frame_gemm_loop split: list.splits if_splits)

lemma data_views [simp]:
  "data (pick a ps) = data a" "data (hi a bs) = data a" "data (lo a bs) = data a"
  "data (transpose_nd a axes) = data a" "data (replaceTensorData a d) = d"
  by (simp_all add: pick_def hi_def lo_def transpose_nd_def replaceTensorData_def)

lemma frame_newTensor:
  assumes "newTensor h S = Inr (h', a)" and "N \<le> length (bufs h)"
  shows "frame N h h'" and "a = mk_ndarray (length (bufs h)) S"
    and "length (bufs h') = length (bufs h) + 1"
  using assms by (auto simp: newTensor_def Let_def frame_def buf_def nth_append split: if_splits)

lemma ebind_Inr: "ebind m f = Inr y \<longleftrightarrow> (\<exists>v. m = Inr v \<and> f v = Inr y)"
  by (cases m) (simp_all add: ebind_def)

lemma for_loop_inv:
  "(\<And>i s s'. P s \<Longrightarrow> body i s = Inr s' \<Longrightarrow> P s') \<Longrightarrow> P s \<Longrightarrow>
   for_loop i limit step body s = Inr s' \<Longrightarrow> P s'"
proof (induction i limit step body s rule: for_loop.induct)
  case (1 i limit step body s)
  note st = \<open>\<And>i s s'. P s \<Longrightarrow> body i s = Inr s' \<Longrightarrow> P s'\<close>
  show ?case
  proof (cases "i \<le> limit")
    case False
    then show ?thesis using "1.prems"(2,3) by (simp add: for_loop.simps[of i])
  next
    case True
    from "1.prems"(3) True obtain s1 where b: "body i s = Inr s1" and np: "\<not> step \<le> 0"
      and r: "for_loop (i + step) limit step body s1 = Inr s'"
      by (auto simp: for_loop.simps[of i] split: sum.splits if_splits)
    have "P s1" using st "1.prems"(2) b by blast
    from "1.IH"[OF True b np st this r] show ?thesis .
  qed
qed

lemma frame_length: "frame N h h' \<Longrightarrow> N \<le> length (bufs h) \<Longrightarrow> N \<le> length (bufs h')"
  by (simp add: frame_def)

lemma frame_im2col_body:
  assumes "N \<le> data patch" and "N \<le> data im"
    and "im2col_body xa im patch pr kr kc C i j (h, n) = Inr (h', n')"
  shows "frame N h h'"
  using assms(3)
  apply (clarsimp simp: im2col_body_def ebind_Inr Let_def)
  subgoal premises p for h1
  proof -
    have "frame N h h1" by (rule frame_assign[OF p(1) assms(1)])
    moreover have "frame N h1 h'" by (rule frame_assign[OF p(2)]) (simp add: assms(2))
    ultimately show ?thesis by (rule frame_trans)
  qed
  done

lemma frame_im2col:
  fixes h :: "'a::zero heap"
  assumes r: "im2col L h x = Inr (h', m)" and N: "N \<le> length (bufs h)"
  shows "frame N h h' \<and> N \<le> data m \<and> data m < length (bufs h')"
  using r
  apply (clarsimp simp: im2col_def ebind_Inr Let_def split: option.splits list.splits prod.splits)
  subgoal premises p for xt iR iC iCh nf kr kc oR oC oCh h1 h2 pa h3 pr n
  proof -
    note n1 = p(5) and n2 = p(6) and n3 = p(7) and lp = p(8)
    have f1: "frame N h h1" and d1: "m = mk_ndarray (length (bufs h)) [oR * oC, kr * kc * iCh]"
      and l1: "length (bufs h1) = length (bufs h) + 1"
      using frame_newTensor[OF n1 N] by simp_all
    have N1: "N \<le> length (bufs h1)" using l1 N by simp
    have f2: "frame N h1 h2" and d2: "pa = mk_ndarray (length (bufs h1)) [kr, kc, iCh]"
      and l2: "length (bufs h2) = length (bufs h1) + 1"
      using frame_newTensor[OF n2 N1] by simp_all
    have N2: "N \<le> length (bufs h2)" using l2 N1 by simp
    have f3: "frame N h2 h3"
      using frame_newTensor[OF n3 N2] by simp_all
    have f03: "frame N h h3" using f1 f2 f3 by (blast intro: frame_trans)
    have dm: "N \<le> data m" using d1 N by (simp add: mk_ndarray_def)
    have dp: "N \<le> data pa" using d2 N1 by (simp add: mk_ndarray_def)
    let ?P = "\<lambda>s :: 'a heap \<times> int. frame N h3 (fst s)"
    have inner: "?P s'" if "?P s" and "im2col_body (tensor xt) m pa pr kr kc iCh i j s = Inr s'"
      for i j s s'
    proof -
      have "frame N (fst s) (fst s')"
        using frame_im2col_body[OF dp dm, of "tensor xt" pr kr kc iCh i j "fst s" "snd s" "fst s'" "snd s'"] that(2)
        by simp
      then show ?thesis using that(1) by (blast intro: frame_trans)
    qed
    have outer: "?P s'" if "?P s" and
        "for_loop 0 (iC - kc) (snd (subsample L)) (im2col_body (tensor xt) m pa pr kr kc iCh i) s = Inr s'"
      for i s s'
      by (rule for_loop_inv[where P = ?P, OF inner that(1) that(2)])
    have "?P (h3, 0)" by (simp add: frame_refl)
    from for_loop_inv[where P = ?P, OF outer this lp]
    have fr3: "frame N h3 h'" by simp
    with f03 have fr: "frame N h h'" by (rule frame_trans)
    have "length (bufs h1) \<le> length (bufs h')"
      using fr3 f2 f3 unfolding frame_def by simp
    then have "data m < length (bufs h')" using d1 l1 by (simp add: mk_ndarray_def)
    with fr dm show ?thesis by simp
  qed
  done

lemma frame_padInput:
  fixes h :: "'a::zero heap"
  assumes r: "padInput L h x = Inr (h', r)" and N: "N \<le> length (bufs h)"
  shows "r = x \<and> length (bufs h) \<le> length (bufs h') \<and> (\<forall>k<N. buf h' k = buf h k)
       \<and> (\<exists>t. objs h' = (objs h)[x := (objs h ! x)\<lparr>tensor := t\<rparr>])"
proof (cases "borderMode L = ''same''")
  case False
  then have "h' = h" "r = x" using r by (simp_all add: padInput_def)
  moreover have "(objs h)[x := (objs h ! x)\<lparr>tensor := tensor (objs h ! x)\<rparr>] = objs h"
    by (simp add: list_update_same_conv)
  ultimately show ?thesis by (auto intro!: exI[of _ "tensor (objs h ! x)"])
next
  case True
  show ?thesis
    using r True
    apply (clarsimp simp: padInput_def ebind_Inr Let_def simp del: bufs_set_tensor
        split: option.splits list.splits prod.splits sum.splits)
    subgoal premises p for xt iR iC iCh pt pb pl pr h1 x' h2
    proof -
      have f1: "frame N h h1" and d1: "x' = mk_ndarray (length (bufs h)) [iR + pt + pb, iC + pl + pr, iCh]"
        using frame_newTensor[OF p(5) N] by simp_all
      have "frame N h1 h2"
        by (rule frame_assign[OF p(6)]) (simp add: d1 N)
      with f1 have f2: "frame N h h2" by (rule frame_trans)
      show ?thesis
        using f2 by (auto simp: frame_def set_tensor_def intro!: exI[of _ x'])
    qed
    done
qed

lemma frame_bias_fill:
  assumes "bias_fill L h mm nf = Inr h'" and "N \<le> data mm"
  shows "frame N h h'"
proof (cases "bias L \<and> 0 < nf")
  case False
  then show ?thesis using assms(1) by (auto simp: bias_fill_def frame_refl)
next
  case True
  show ?thesis
    using assms(1) True
    apply (clarsimp simp: bias_fill_def split: option.splits)
    subgoal for b bt
      by (rule frame_foldl) (rule frame_assigns, simp add: assms(2))
    done
qed

lemma frame_matmul_step:
  fixes h :: "'a::{zero,plus,times} heap"
  assumes r: "matmul_step sg L h uw mm im = Inr (h', mm')" and d: "N \<le> data mm"
    and N: "N \<le> length (bufs h)"
  shows "frame N h h' \<and> N \<le> data mm' \<and> (data mm < length (bufs h) \<longrightarrow> data mm' < length (bufs h'))"
proof (cases uw)
  case False
  show ?thesis
    using r False
    apply (clarsimp simp: matmul_step_def ebind_Inr split: option.splits)
    subgoal premises p for wr
      using p d frame_gemm[of h mm' im wr h' N] by (auto simp: frame_def)
    done
next
  case True
  show ?thesis
    using r True N
    by (auto simp: matmul_step_def ebind_Inr frame_def buf_def nth_append
          split: option.splits list.splits prod.splits if_splits)
qed

lemma frame_output_body:
  assumes "output_body mm out ocr oc n h = Inr h'" and "N \<le> data out" and "N \<le> data ocr"
  shows "frame N h h'"
  using assms(1)
  apply (clarsimp simp: output_body_def ebind_Inr Let_def)
  subgoal premises p for h1
  proof -
    have "frame N h h1" by (rule frame_assign[OF p(1) assms(3)])
    moreover have "frame N h1 h'" by (rule frame_assign[OF p(2)]) (simp add: assms(2))
    ultimately show ?thesis by (rule frame_trans)
  qed
  done

lemma frame_output_loop:
  assumes "for_loop 0 lmt 1 (output_body mm out ocr oc) h = Inr h'" and "N \<le> data out" and "N \<le> data ocr"
  shows "frame N h h'"
proof -
  let ?P = "\<lambda>s. frame N h s"
  have st: "?P s'" if "?P s" "output_body mm out ocr oc n s = Inr s'" for n s s'
    using that(1) frame_output_body[OF that(2) assms(2,3)] by (rule frame_trans)
  show ?thesis
    by (rule for_loop_inv[where P = ?P, OF st frame_refl assms(1)])
qed

lemma calcOutputShape_result:
  assumes "calcOutputShape L X = Inr L1"
  shows "\<exists>nf kr kc oR oC P. kernelShape L = (nf, kr, kc) \<and> L1 = L\<lparr>outputShape := Some [oR, oC, nf], inputPadding := Some P\<rparr>"
  using assms
  by (auto simp: calcOutputShape_def Let_def split: list.splits prod.splits if_splits)
     (intro exI, rule refl)+

lemma frame_bufs: "frame N h h' \<Longrightarrow> k < N \<Longrightarrow> buf h' k = buf h k"
  by (simp add: frame_def)

lemma frame_objs: "frame N h h' \<Longrightarrow> objs h' = objs h"
  by (simp add: frame_def)

lemma frame_mono: "frame N h h' \<Longrightarrow> length (bufs h) \<le> length (bufs h')"
  by (simp add: frame_def)

lemma final_heap:
  fixes h9 :: "'a heap" and g :: "'a f32 list \<Rightarrow> 'a f32 list"
  assumes o: "objs h9 = (objs h)[x := xt\<lparr>tensor := t\<rparr>]" and xl: "x < length (objs h)"
    and l: "length (bufs h) \<le> length (bufs h9)" and f: "\<forall>k<length (bufs h). buf h9 k = buf h k"
    and d: "length (bufs h) \<le> data out"
  defines "h11 \<equiv> (set_tensor h9 x out)\<lparr>bufs := (bufs (set_tensor h9 x out))[data out := g (buf (set_tensor h9 x out) (data out))]\<rparr>"
  shows "length (bufs h11) = length (bufs h9)" and "\<forall>k<length (bufs h). buf h11 k = buf h k"
    and "objs h11 = (objs h)[x := xt\<lparr>tensor := out\<rparr>]"
    and "length (bufs (set_tensor h11 x a)) = length (bufs h9)"
    and "\<forall>k<length (bufs h). buf (set_tensor h11 x a) k = buf h k"
    and "objs (set_tensor h11 x a) = (objs h)[x := xt\<lparr>tensor := a\<rparr>]"
  using assms by (auto simp: set_tensor_def buf_def)

lemma call_frame:
  fixes h :: "'a::{zero,plus,times} heap"
  assumes r: "call sg L h x = Inr (L', h', r)"
  shows "r = x
       \<and> (\<exists>S P. L' = L\<lparr>outputShape := Some S, inputPadding := Some P\<rparr>)
       \<and> length (bufs h) \<le> length (bufs h')
       \<and> (\<forall>k<length (bufs h). buf h' k = buf h k)
       \<and> (\<exists>xt S No. deref h x = Some xt \<and> outputShape L' = Some S
             \<and> length (bufs h) \<le> No \<and> No < length (bufs h')
             \<and> objs h' = (objs h)[x := xt\<lparr>tensor :=
                   (if dimOrdering L = ''th'' then transpose_nd (mk_ndarray No S) [2, 0, 1]
                    else mk_ndarray No S)\<rparr>])"
  using r
  apply (clarsimp simp: call_def ebind_Inr simp del: bufs_set_tensor buf_set_tensor
      split: option.splits)
  subgoal premises p for xt h0 L1 h1 x1 h2 im
  proof -
    from calcOutputShape_result[OF p(3)] obtain nf kr kc oR oC P where
      ks: "kernelShape L = (nf, kr, kc)" and L1: "L1 = L\<lparr>outputShape := Some [oR, oC, nf], inputPadding := Some P\<rparr>"
      by blast
    have ks1: "kernelShape L1 = (nf, kr, kc)" and os1: "outputShape L1 = Some [oR, oC, nf]"
      using ks by (simp_all add: L1)
    let ?N = "length (bufs h)"
    have xl: "x < length (objs h)" "objs h ! x = xt"
      using p(1) by (auto simp: deref_def split: if_splits)
    have h0: "bufs h0 = bufs h" "\<exists>t. objs h0 = (objs h)[x := xt\<lparr>tensor := t\<rparr>]"
      using p(2) xl by (auto simp: set_tensor_def list_update_same_conv split: if_splits
          intro: exI[of _ "tensor xt"])
    have N0: "?N \<le> length (bufs h0)" using h0 by simp
    from frame_padInput[OF p(4) N0]
    have x1: "x1 = x" and l1: "length (bufs h0) \<le> length (bufs h1)"
      and f1: "\<forall>k<?N. buf h1 k = buf h0 k"
      and o1: "\<exists>t. objs h1 = (objs h0)[x := (objs h0 ! x)\<lparr>tensor := t\<rparr>]"
      by simp_all
    have N1: "?N \<le> length (bufs h1)" using N0 l1 by simp
    from frame_im2col[OF p(5) N1]
    have f2: "frame ?N h1 h2" and dim: "?N \<le> data im" by simp_all
    have N2: "?N \<le> length (bufs h2)" using f2 N1 by (rule frame_length)
    show ?thesis
      using p(6) unfolding ks1 os1
      apply (clarsimp simp: ebind_Inr Let_def simp del: bufs_set_tensor buf_set_tensor
          split: option.splits)
      subgoal premises q for h3 mm h4 h5 mm' h6 out h7 ocr h8 oc h9 ac
      proof -
        have f3: "frame ?N h2 h3" and d3: "mm = mk_ndarray (length (bufs h2)) [oR * oC, nf]"
          using frame_newTensor[OF q(1) N2] by simp_all
        have N3: "?N \<le> length (bufs h3)" using f3 N2 by (rule frame_length)
        have dmm: "?N \<le> data mm" using d3 N2 by simp
        have f4: "frame ?N h3 h4" by (rule frame_bias_fill[OF q(2) dmm])
        have N4: "?N \<le> length (bufs h4)" using f4 N3 by (rule frame_length)
        from frame_matmul_step[OF q(3) dmm N4] have f5: "frame ?N h4 h5" by simp
        have N5: "?N \<le> length (bufs h5)" using f5 N4 by (rule frame_length)
        have f6: "frame ?N h5 h6" and d6: "out = mk_ndarray (length (bufs h5)) [oR, oC, nf]"
          and l6: "length (bufs h6) = length (bufs h5) + 1"
          using frame_newTensor[OF q(4) N5] by simp_all
        have N6: "?N \<le> length (bufs h6)" using f6 N5 by (rule frame_length)
        have f7: "frame ?N h6 h7" and d7: "ocr = mk_ndarray (length (bufs h6)) [oR * oC]"
          using frame_newTensor[OF q(5) N6] by simp_all
        have N7: "?N \<le> length (bufs h7)" using f7 N6 by (rule frame_length)
        have f8: "frame ?N h7 h8"
          using frame_newTensor[OF q(6) N7] by simp_all
        have dout: "?N \<le> data out" and docr: "?N \<le> data ocr" using d6 d7 N5 N6 by simp_all
        have f9: "frame ?N h8 h9" by (rule frame_output_loop[OF q(10) dout docr])
        have f29: "frame ?N h2 h9"
          using f3 f4 f5 f6 f7 f8 f9 by (blast intro: frame_trans)
        have l69: "length (bufs h6) \<le> length (bufs h9)"
          using frame_mono[OF f7] frame_mono[OF f8] frame_mono[OF f9] by simp
        obtain t where o9: "objs h9 = (objs h)[x := xt\<lparr>tensor := t\<rparr>]"
          using frame_objs[OF f29] frame_objs[OF f2] o1 h0(2) xl by auto
        have l9: "?N \<le> length (bufs h9)" using f29 N2 by (rule frame_length)
        have b9: "\<forall>k<?N. buf h9 k = buf h k"
          using frame_bufs[OF f29] frame_bufs[OF f2] f1 h0(1) by (simp add: buf_def)
        note fh = final_heap[OF o9 xl(1) l9 b9 dout, of ac]
        have A: "\<exists>S a aa ab b. L' = L\<lparr>outputShape := Some S, inputPadding := Some (a, aa, ab, b)\<rparr>"
        proof -
          obtain a b c d where Pd: "P = (a, b, c, d)" by (cases P) auto
          show ?thesis unfolding q(9)[symmetric] L1 Pd by (intro exI, rule refl)
        qed
        have os: "outputShape L' = Some [oR, oC, nf]" using q(9) os1 by simp
        have No: "?N \<le> length (bufs h5)" "length (bufs h5) < length (bufs h9)"
          using N5 l6 l69 by simp_all
        show ?thesis
          using A os No fh l9 unfolding q(11)[symmetric] d6
          by (auto simp del: bufs_set_tensor buf_set_tensor
                intro!: exI[of _ "[oR, oC, nf]"] exI[of _ "length (bufs h5)"])
      qed
      done
  qed
  done

subsection \<open>What call does to its argument\<close>

lemma scenario_runs:
  "\<exists>L1 h1 L2 h2.
       setWeights layer_valid_1 heap5 [1, 2] = Inr (L1, h1)
     \<and> objs h1 = objs heap5 \<and> length (bufs h1) = 6 \<and> wRowsMat L1 = Some (mk_ndarray 3 [9, 1])
     \<and> dimOrdering L1 = ''tf'' \<and> buf h1 0 = buf heap5 0
     \<and> call sg L1 h1 0 = Inr (L2, h2, 0) \<and> outputShape L2 = Some [3, 3, 1]"
proof -
  let ?L = "layer_valid_1"
  let ?xt = "\<lparr>tensor = mk_ndarray 0 [5, 5, 1], useWeblas = False\<rparr>"
  let ?wt = "\<lparr>tensor = mk_ndarray 1 [3, 3, 1, 1], useWeblas = False\<rparr>"
  let ?bt = "\<lparr>tensor = mk_ndarray 2 [1], useWeblas = False\<rparr>"
  have k: "kernelShape ?L = (1, 3, 3)" "subsample ?L = (1, 1)"
      "borderMode ?L = ''valid'' \<or> borderMode ?L = ''same''" "dimOrdering ?L \<noteq> ''th''"
      "activation ?L = Some (\<lambda>v. v)" "params ?L = (if bias ?L then [''W'', ''b''] else [''W''])"
      "borderMode ?L = ''valid'' \<longrightarrow> (3::int) \<le> 5 \<and> (3::int) \<le> 5"
    by (simp_all add: layer_valid_1_def)
  have w: "deref heap5 1 = Some ?wt" "shape (tensor ?wt) = [3, 3, 1, 1]"
      "length (stride (tensor ?wt)) = 4" "data (tensor ?wt) < length (bufs heap5)"
    by (simp_all add: heap5_def deref_def)
  have b: "bias ?L \<longrightarrow> [2::nat] \<noteq> [] \<and> hd [2::nat] \<noteq> 0 \<and> deref heap5 (hd [2]) = Some ?bt
             \<and> data (tensor ?bt) < length (bufs heap5)"
    by (simp add: heap5_def deref_def)
  have x: "deref heap5 0 = Some ?xt" "shape (tensor ?xt) = [5, 5, 1]"
      "length (stride (tensor ?xt)) = 3" "data (tensor ?xt) < length (bufs heap5)"
      "useWeblas ?xt \<longrightarrow> sg = sgemm_spec
         \<and> (bias ?L \<longrightarrow> stride (tensor ?bt) = [1] \<and> offset (tensor ?bt) = 0)"
    by (simp_all add: heap5_def deref_def)
  have z: "(0::int) < 1" "(0::int) < 3" "(0::int) < 5" "(0::int) \<le> 3" "(0::int) \<le> 1" by simp_all
  from setWeights_tf[OF k(4) k(6) w k(1) z(4) z(4) z(5) z(5), of "[2]"]
  obtain h1 where sw: "setWeights ?L heap5 [1, 2] =
        Inr ((super_setWeights ?L [1, 2])\<lparr>wRowsMat := Some (mk_ndarray (length (bufs heap5)) [3 * 3 * 1, 1])\<rparr>, h1)"
    and o: "objs h1 = objs heap5" and l: "length (bufs h1) = length (bufs heap5) + 3"
    and f: "\<forall>k<length (bufs heap5). buf h1 k = buf heap5 k"
    by auto
  from conv_pipeline[OF k(1) z(1) z(2) z(2) k(2) z(1) z(1) k(3) k(4) k(5) k(6)
      w b x(1-4) z(3) z(3) z(1) k(7) x(5)]
  obtain Lc L1 h1' L2 h2 oR oC pt pb pl pr where sw': "setWeights ?L heap5 [1, 2] = Inr (L1, h1')"
    and c: "calcOutputShape ?L (tensor ?xt) = Inr Lc"
    and sc: "outputShape Lc = Some [oR, oC, 1]"
    and s2: "outputShape L2 = Some [oR, oC, 1]"
    and cl: "call sg L1 h1' 0 = Inr (L2, h2, 0)"
    by auto
  have "calcOutputShape ?L (tensor ?xt) =
        Inr (?L\<lparr>outputShape := Some [3, 3, 1], inputPadding := Some (0, 0, 0, 0)\<rparr>)"
    by (simp add: calcOutputShape_def mk_ndarray_def Let_def layer_valid_1_def)
  with c sc have oe: "oR = 3" "oC = 3" by auto
  have e: "L1 = (super_setWeights ?L [1, 2])\<lparr>wRowsMat := Some (mk_ndarray (length (bufs heap5)) [3 * 3 * 1, 1])\<rparr>"
      "h1' = h1"
    using sw sw' by simp_all
  have n: "length (bufs heap5) = 3" by (simp add: heap5_def)
  show ?thesis
  proof (intro exI conjI)
    show "setWeights ?L heap5 [1, 2] = Inr (L1, h1)" using sw' e by simp
    show "objs h1 = objs heap5" by (rule o)
    show "length (bufs h1) = 6" using l n by simp
    show "wRowsMat L1 = Some (mk_ndarray 3 [9, 1])" by (simp add: e n)
    show "dimOrdering L1 = ''tf''" by (simp add: e super_setWeights_def layer_valid_1_def)
    show "buf h1 0 = buf heap5 0" using f n by simp
    show "call sg L1 h1 0 = Inr (L2, h2, 0)" using cl e by simp
    show "outputShape L2 = Some [3, 3, 1]" using s2 oe by simp
  qed
qed



end
